theory Spec2Isabelle
  imports Main "HOL-Library.Word"
begin

section \<open>SecureBox: the grid and its toggle (src/SecureBox/main.cpp, lines 26-100)\<close>

text \<open>
  Everything the C++ leaves undefined is an error value of the model: an index beyond
  the end of a vector, a remainder by zero, an addition on \<open>int\<close> that leaves its range,
  and a null \<open>argv\<close> entry handed to \<open>atol\<close>.
\<close>

datatype error = IndexOutOfRange | DivisionByZero | IntOverflow | NullArgument | LongOverflow

type_synonym grid = "bool list list"

text \<open>The class \<open>SecureBox\<close>: the private vector of rows and the two sizes.\<close>

record SecureBox =
  box :: grid
  ySize :: nat
  xSize :: nat

text \<open>
  A counted loop \<open>for (i = a; i < b; ++i) body\<close> whose body may fail is
  \<open>for_each [a..<b] body\<close>: the first failing iteration ends the run.
\<close>

primrec for_each :: "'i list \<Rightarrow> ('i \<Rightarrow> 's \<Rightarrow> error + 's) \<Rightarrow> 's \<Rightarrow> error + 's" where
  "for_each [] body s = Inr s"
| "for_each (i # rest) body s =
     (case body i s of Inl e \<Rightarrow> Inl e | Inr s' \<Rightarrow> for_each rest body s')"

text \<open>\<open>g[i][j] = !g[i][j]\<close> on a vector of vectors.\<close>

definition flip :: "grid \<Rightarrow> nat \<Rightarrow> nat \<Rightarrow> error + grid" where
  "flip g i j =
     (if i < length g \<and> j < length (g ! i)
      then Inr (g[i := (g ! i)[j := \<not> g ! i ! j]])
      else Inl IndexOutOfRange)"

text \<open>
  \<open>toggle(y, x)\<close>, lines 53-60: the cell itself, then every cell of row \<open>y\<close>, then every
  cell of column \<open>x\<close> (so the cell itself is inverted three times).
\<close>

definition toggle :: "SecureBox \<Rightarrow> nat \<Rightarrow> nat \<Rightarrow> error + SecureBox" where
  "toggle s y x =
     (case flip (box s) y x of Inl e \<Rightarrow> Inl e | Inr g1 \<Rightarrow>
     (case for_each [0..<xSize s] (\<lambda>i g. flip g y i) g1 of Inl e \<Rightarrow> Inl e | Inr g2 \<Rightarrow>
     (case for_each [0..<ySize s] (\<lambda>i g. flip g i x) g2 of Inl e \<Rightarrow> Inl e | Inr g3 \<Rightarrow>
      Inr (s\<lparr>box := g3\<rparr>))))"

text \<open>\<open>isLocked\<close>, lines 67-75: columns outermost, rows innermost, true at the first true cell.\<close>

definition isLocked :: "SecureBox \<Rightarrow> bool" where
  "isLocked s = list_ex (\<lambda>x. list_ex (\<lambda>y. box s ! y ! x) [0..<ySize s]) [0..<xSize s]"

definition getState :: "SecureBox \<Rightarrow> grid" where
  "getState s = box s"

text \<open>
  \<open>shuffle\<close>, lines 95-99. The generator is a parameter of the model: \<open>rng k\<close> is the
  \<open>k\<close>-th value the 64-bit Mersenne twister returns after seeding. The first value
  gives the number of rounds, every round draws two more values and reduces them by
  the two sizes; a size of zero makes that remainder undefined.
\<close>

definition shuffle :: "(nat \<Rightarrow> nat) \<Rightarrow> SecureBox \<Rightarrow> error + SecureBox" where
  "shuffle rng s =
     for_each [0..<rng 0 mod 1000]
       (\<lambda>k s. if ySize s = 0 \<or> xSize s = 0 then Inl DivisionByZero
               else toggle s (rng (2 * k + 1) mod ySize s) (rng (2 * k + 2) mod xSize s)) s"

text \<open>The constructor, lines 39-46: \<open>y\<close> rows of \<open>x\<close> false cells, then \<open>shuffle\<close>.\<close>

definition SecureBox_new :: "nat \<Rightarrow> nat \<Rightarrow> (nat \<Rightarrow> nat) \<Rightarrow> error + SecureBox" where
  "SecureBox_new y x rng =
     shuffle rng \<lparr>box = replicate y (replicate x False), ySize = y, xSize = x\<rparr>"

section \<open>openBox (lines 110-207)\<close>

text \<open>Arithmetic on \<open>uint32_t\<close> wraps modulo \<open>2 ^ 32 = 4294967296\<close>.\<close>

definition u32 :: "nat \<Rightarrow> nat" where
  "u32 k = k mod 4294967296"

text \<open>\<open>A[i][j] = v\<close> on the matrix.\<close>

definition set2 :: "bool list list \<Rightarrow> nat \<Rightarrow> nat \<Rightarrow> bool \<Rightarrow> error + bool list list" where
  "set2 A i j v =
     (if i < length A \<and> j < length (A ! i)
      then Inr (A[i := (A ! i)[j := v]])
      else Inl IndexOutOfRange)"

text \<open>The body of the two construction loops, lines 125-137, for one cell \<open>(row, col)\<close>.\<close>

definition build_cell ::
  "SecureBox \<Rightarrow> nat \<Rightarrow> nat \<Rightarrow> nat \<Rightarrow> nat \<Rightarrow> bool list list \<times> bool list
     \<Rightarrow> error + bool list list \<times> bool list" where
  "build_cell bx y x row col Ab =
     (case Ab of (A, b) \<Rightarrow>
      let idx = u32 (row * x + col); g = getState bx in
      if \<not> (idx < length b \<and> row < length g \<and> col < length (g ! row))
      then Inl IndexOutOfRange
      else
        let b1 = b[idx := g ! row ! col] in
       (case set2 A idx idx True of Inl e \<Rightarrow> Inl e | Inr A1 \<Rightarrow>
       (case for_each [0..<x] (\<lambda>i A. set2 A idx (u32 (row * x + i)) True) A1 of
          Inl e \<Rightarrow> Inl e | Inr A2 \<Rightarrow>
       (case for_each [0..<y] (\<lambda>i A. set2 A idx (u32 (i * x + col)) True) A2 of
          Inl e \<Rightarrow> Inl e | Inr A3 \<Rightarrow>
        Inr (A3, b1)))))"

text \<open>Lines 115-139: \<open>A\<close> and \<open>b\<close> of size \<open>n = y * x\<close> (as \<open>uint32_t\<close>), all false, then the loops.\<close>

definition build_system ::
  "SecureBox \<Rightarrow> nat \<Rightarrow> nat \<Rightarrow> nat \<Rightarrow> error + bool list list \<times> bool list" where
  "build_system bx y x n =
     for_each [0..<y] (\<lambda>row. for_each [0..<x] (\<lambda>col. build_cell bx y x row col))
       (replicate n (replicate n False), replicate n False)"

text \<open>
  Lines 144-146, the pivot search. From here to the end of back substitution every index
  is below the loop bound \<open>n\<close>, the size the vectors were created with, so these phases
  are written with plain list access.
\<close>

function find_pivot :: "nat \<Rightarrow> bool list list \<Rightarrow> nat \<Rightarrow> nat \<Rightarrow> nat" where
  "find_pivot n A col pivot =
     (if pivot < n \<and> \<not> A ! pivot ! col then find_pivot n A col (Suc pivot) else pivot)"
  by pat_completeness auto
termination
  by (relation "measure (\<lambda>(n, A, col, pivot). n - pivot)") auto

declare find_pivot.simps [simp del]

text \<open>Lines 152-156: \<open>std::swap\<close> of the two rows, and the three assignments on \<open>b\<close>.\<close>

definition swap_rows ::
  "bool list list \<times> bool list \<Rightarrow> nat \<Rightarrow> nat \<Rightarrow> bool list list \<times> bool list" where
  "swap_rows Ab col pivot =
     (case Ab of (A, b) \<Rightarrow>
        (A[col := A ! pivot, pivot := A ! col], b[col := b ! pivot, pivot := b ! col]))"

text \<open>Lines 164-165: \<open>A[row][k] ^= A[col][k]\<close> for \<open>k\<close> from \<open>col\<close>.\<close>

definition xor_row :: "nat \<Rightarrow> nat \<Rightarrow> nat \<Rightarrow> bool list list \<Rightarrow> bool list list" where
  "xor_row n col row A =
     fold (\<lambda>k A. A[row := (A ! row)[k := (A ! row ! k) \<noteq> (A ! col ! k)]]) [col..<n] A"

text \<open>Lines 159-169: the rows below the pivot.\<close>

definition eliminate_below ::
  "nat \<Rightarrow> nat \<Rightarrow> bool list list \<times> bool list \<Rightarrow> bool list list \<times> bool list" where
  "eliminate_below n col Ab =
     fold (\<lambda>row (A, b).
             if A ! row ! col
             then (xor_row n col row A, b[row := (b ! row) \<noteq> (b ! col)])
             else (A, b))
       [Suc col..<n] Ab"

text \<open>One iteration of the loop of line 142.\<close>

definition eliminate_col ::
  "nat \<Rightarrow> nat \<Rightarrow> bool list list \<times> bool list \<Rightarrow> bool list list \<times> bool list" where
  "eliminate_col n col Ab =
     (let pivot = find_pivot n (fst Ab) col col in
      if pivot = n then Ab else eliminate_below n col (swap_rows Ab col pivot))"

definition eliminate ::
  "nat \<Rightarrow> bool list list \<times> bool list \<Rightarrow> bool list list \<times> bool list" where
  "eliminate n Ab = fold (eliminate_col n) [0..<n] Ab"

text \<open>
  Lines 174-192. The row counter is an \<open>int\<close> initialised from the \<open>uint32_t\<close> value
  \<open>y * x - 1\<close>: it starts negative, and the loop body never runs, when \<open>n = 0\<close> or
  \<open>n - 1\<close> has its top bit set, that is when \<open>n\<close> exceeds \<open>2 ^ 31 = 2147483648\<close>.
\<close>

definition back_rows :: "nat \<Rightarrow> nat list" where
  "back_rows n = (if n = 0 \<or> 2147483648 < n then [] else rev [0..<n])"

text \<open>
  Line 188 initialises the column counter with \<open>row + 1\<close>, an addition on \<open>int\<close> that is
  converted to \<open>uint32_t\<close> afterwards. At \<open>row = INT_MAX = 2147483647\<close> the sum is not an
  \<open>int\<close> and the behaviour is undefined.
\<close>

definition int_succ :: "nat \<Rightarrow> error + nat" where
  "int_succ row = (if row < 2147483647 then Inr (Suc row) else Inl IntOverflow)"

text \<open>Lines 179-191: one iteration, for the row \<open>row\<close>.\<close>

definition back_row ::
  "nat \<Rightarrow> bool list list \<Rightarrow> bool list \<Rightarrow> nat \<Rightarrow> bool list \<Rightarrow> error + bool list" where
  "back_row n A b row xResult =
     (case int_succ row of Inl e \<Rightarrow> Inl e | Inr first \<Rightarrow>
        Inr (xResult[row := fold (\<lambda>col sum. sum \<noteq> (A ! row ! col \<and> xResult ! col))
                                 [first..<n] (b ! row)]))"

definition back_substitute :: "nat \<Rightarrow> bool list list \<times> bool list \<Rightarrow> error + bool list" where
  "back_substitute n Ab =
     (case Ab of (A, b) \<Rightarrow> for_each (back_rows n) (back_row n A b) (replicate n False))"

text \<open>Lines 195-204: replay of the toggles, at \<open>(i / x, i % x)\<close>.\<close>

definition apply_toggles :: "nat \<Rightarrow> nat \<Rightarrow> bool list \<Rightarrow> SecureBox \<Rightarrow> error + SecureBox" where
  "apply_toggles x n xResult bx =
     for_each [0..<n]
       (\<lambda>i bx. if xResult ! i
                then (if x = 0 then Inl DivisionByZero else toggle bx (i div x) (i mod x))
                else Inr bx) bx"

text \<open>The part of \<open>openBox\<close> after the box has been constructed, lines 115-206.\<close>

definition solve_box :: "nat \<Rightarrow> nat \<Rightarrow> SecureBox \<Rightarrow> error + SecureBox" where
  "solve_box y x bx =
     (let n = u32 (y * x) in
      (case build_system bx y x n of Inl e \<Rightarrow> Inl e | Inr Ab \<Rightarrow>
      (case back_substitute n (eliminate n Ab) of Inl e \<Rightarrow> Inl e | Inr xResult \<Rightarrow>
       apply_toggles x n xResult bx)))"

definition openBox :: "32 word \<Rightarrow> 32 word \<Rightarrow> (nat \<Rightarrow> nat) \<Rightarrow> error + bool" where
  "openBox y x rng =
     (case SecureBox_new (unat y) (unat x) rng of Inl e \<Rightarrow> Inl e | Inr bx \<Rightarrow>
     (case solve_box (unat y) (unat x) bx of Inl e \<Rightarrow> Inl e | Inr bx' \<Rightarrow>
      Inr (isLocked bx')))"

section \<open>main (lines 210-222)\<close>

text \<open>
  \<open>atol\<close> is the C library's: leading white space is skipped, an optional sign is read, then
  decimal digits up to the first other character; without digits the value is 0. A value
  that does not fit \<open>long\<close> (64 bits here) is undefined in C and an error of the model.
\<close>

definition is_space :: "char \<Rightarrow> bool" where
  "is_space ch \<longleftrightarrow> of_char ch \<in> {32, 9, 10, 11, 12, 13 :: nat}"

definition is_digit :: "char \<Rightarrow> bool" where
  "is_digit ch \<longleftrightarrow> (48::nat) \<le> of_char ch \<and> of_char ch \<le> (57::nat)"

fun digits_value :: "nat \<Rightarrow> string \<Rightarrow> nat" where
  "digits_value acc [] = acc"
| "digits_value acc (ch # rest) =
     (if is_digit ch then digits_value (acc * 10 + (of_char ch - 48)) rest else acc)"

definition atol :: "string \<Rightarrow> error + int" where
  "atol s =
     (let t = dropWhile is_space s;
          v = (case t of
                 [] \<Rightarrow> 0
               | ch # rest \<Rightarrow>
                   if ch = CHR ''-'' then - int (digits_value 0 rest)
                   else if ch = CHR ''+'' then int (digits_value 0 rest)
                   else int (digits_value 0 t))
      in if - 9223372036854775808 \<le> v \<and> v \<le> 9223372036854775807 then Inr v
         else Inl LongOverflow)"

text \<open>
  \<open>argv[k]\<close>: the strings of the command line, the program's name first. The entry after
  the last one is a null pointer, and \<open>atol\<close> of it is undefined.
\<close>

definition arg :: "string list \<Rightarrow> nat \<Rightarrow> error + string" where
  "arg argv k = (if k < length argv then Inr (argv ! k) else Inl NullArgument)"

text \<open>Lines 212-213: the two conversions, each narrowed from \<open>long\<close> to \<open>uint32_t\<close>.\<close>

definition main_dims :: "string list \<Rightarrow> error + 32 word \<times> 32 word" where
  "main_dims argv =
     (case arg argv 1 of Inl e \<Rightarrow> Inl e | Inr a1 \<Rightarrow>
     (case atol a1 of Inl e \<Rightarrow> Inl e | Inr v1 \<Rightarrow>
     (case arg argv 2 of Inl e \<Rightarrow> Inl e | Inr a2 \<Rightarrow>
     (case atol a2 of Inl e \<Rightarrow> Inl e | Inr v2 \<Rightarrow>
      Inr (word_of_int v1, word_of_int v2)))))"

text \<open>Lines 214-221: the line printed and the exit status.\<close>

definition report :: "bool \<Rightarrow> string \<times> int" where
  "report state = (if state then (''BOX: LOCKED!'', 1) else (''BOX: OPENED!'', 0))"

definition main :: "string list \<Rightarrow> (nat \<Rightarrow> nat) \<Rightarrow> error + string \<times> int" where
  "main argv rng =
     (case main_dims argv of Inl e \<Rightarrow> Inl e | Inr (y, x) \<Rightarrow>
     (case openBox y x rng of Inl e \<Rightarrow> Inl e | Inr state \<Rightarrow> Inr (report state)))"

section \<open>Predicates used in the statements and in the proofs\<close>

subsection \<open>Shapes\<close>

text \<open>
  A vector of \<open>ys\<close> rows of \<open>xs\<close> cells each, and a box whose vector has the shape its two
  size fields say (the constructor makes it so, and nothing resizes it).
\<close>

definition dims :: "grid \<Rightarrow> nat \<Rightarrow> nat \<Rightarrow> bool" where
  "dims g ys xs \<longleftrightarrow> length g = ys \<and> (\<forall>i<ys. length (g ! i) = xs)"

definition wf_box :: "SecureBox \<Rightarrow> bool" where
  "wf_box s \<longleftrightarrow> dims (box s) (ySize s) (xSize s)"

subsection \<open>The system that is built\<close>

text \<open>
  Linear indices \<open>i\<close> and \<open>j\<close> are in the footprint of each other when their cells share
  the row or the column. \<open>built bx x n m\<close> describes \<open>A\<close> and \<open>b\<close> when the construction
  loops have handled the cells of linear index below \<open>m\<close>.
\<close>

definition footprint :: "nat \<Rightarrow> nat \<Rightarrow> nat \<Rightarrow> bool" where
  "footprint x i j \<longleftrightarrow> i div x = j div x \<or> i mod x = j mod x"

definition built :: "SecureBox \<Rightarrow> nat \<Rightarrow> nat \<Rightarrow> nat \<Rightarrow> bool list list \<times> bool list \<Rightarrow> bool" where
  "built bx x n m Ab \<longleftrightarrow>
     dims (fst Ab) n n \<and> length (snd Ab) = n \<and>
     (\<forall>i<n. \<forall>j<n. fst Ab ! i ! j = (i < m \<and> footprint x i j)) \<and>
     (\<forall>i<n. snd Ab ! i = (i < m \<and> box bx ! (i div x) ! (i mod x)))"

subsection \<open>One iteration of the elimination\<close>

text \<open>
  \<open>tr c p\<close> exchanges the indices \<open>c\<close> and \<open>p\<close>. \<open>pivot_step n c p\<close> relates the system
  before and after an iteration for column \<open>c\<close> that found its pivot in row \<open>p\<close>: rows are
  exchanged, then every row below \<open>c\<close> with a true entry in column \<open>c\<close> has the pivot row
  added from column \<open>c\<close> on. \<open>cleared n m\<close> says that the rows from \<open>m\<close> on are false in
  all columns before \<open>m\<close>.
\<close>

definition tr :: "nat \<Rightarrow> nat \<Rightarrow> nat \<Rightarrow> nat" where
  "tr c p i = (if i = c then p else if i = p then c else i)"

definition pivot_step ::
  "nat \<Rightarrow> nat \<Rightarrow> nat \<Rightarrow> bool list list \<times> bool list \<Rightarrow> bool list list \<times> bool list \<Rightarrow> bool" where
  "pivot_step n c p Ab Ab' \<longleftrightarrow>
     (\<forall>i<n. \<forall>k<n. fst Ab' ! i ! k =
        (if c < i \<and> fst Ab ! tr c p i ! c \<and> c \<le> k
         then fst Ab ! tr c p i ! k \<noteq> fst Ab ! p ! k else fst Ab ! tr c p i ! k)) \<and>
     (\<forall>i<n. snd Ab' ! i =
        (if c < i \<and> fst Ab ! tr c p i ! c
         then snd Ab ! tr c p i \<noteq> snd Ab ! p else snd Ab ! tr c p i))"

definition cleared :: "nat \<Rightarrow> nat \<Rightarrow> bool list list \<times> bool list \<Rightarrow> bool" where
  "cleared n m Ab \<longleftrightarrow>
     dims (fst Ab) n n \<and> length (snd Ab) = n \<and> (\<forall>r<n. \<forall>k<m. m \<le> r \<longrightarrow> \<not> fst Ab ! r ! k)"

text \<open>The state of the loop of line 142 when it has processed the columns below \<open>c\<close>.\<close>

definition state_at :: "nat \<Rightarrow> bool list list \<times> bool list \<Rightarrow> nat \<Rightarrow> bool list list \<times> bool list" where
  "state_at n Ab c = fold (eliminate_col n) [0..<c] Ab"

subsection \<open>The values of back substitution\<close>

text \<open>
  What the loop of line 177 computes when no \<open>row + 1\<close> leaves the range of \<open>int\<close>; lemma
  \<open>back_substitute_values\<close> below shows that this is the case for every \<open>n\<close> other than
  \<open>2 ^ 31\<close>, and \<open>back_substitute_overflow\<close> that at \<open>n = 2 ^ 31\<close> the first iteration
  overflows.
\<close>

definition back_values :: "nat \<Rightarrow> bool list list \<times> bool list \<Rightarrow> bool list" where
  "back_values n Ab =
     (case Ab of (A, b) \<Rightarrow>
        fold (\<lambda>row xResult.
                xResult[row := fold (\<lambda>col sum. sum \<noteq> (A ! row ! col \<and> xResult ! col))
                                 [Suc row..<n] (b ! row)])
          (back_rows n) (replicate n False))"

subsection \<open>Linearity\<close>

text \<open>
  The cell-wise exclusive or of two vectors, and three runs of the solver on the same
  matrix whose right-hand sides are \<open>b1\<close>, \<open>b2\<close> and their exclusive or.
\<close>

definition vxor :: "bool list \<Rightarrow> bool list \<Rightarrow> bool list" where
  "vxor u v = map2 (\<noteq>) u v"

definition lin3 ::
  "nat \<Rightarrow> bool list list \<times> bool list \<Rightarrow> bool list list \<times> bool list \<Rightarrow> bool list list \<times> bool list \<Rightarrow> bool" where
  "lin3 n s1 s2 s3 \<longleftrightarrow>
     fst s2 = fst s1 \<and> fst s3 = fst s1 \<and> length (snd s1) = n \<and> length (snd s2) = n \<and>
     snd s3 = vxor (snd s1) (snd s2)"

subsection \<open>The two-element field\<close>

text \<open>
  For the proof that the solver is correct, booleans are read in the field with two
  elements, the words of one bit: addition is exclusive or, multiplication is conjunction.
  A row or a vector is a function on indices, of which the first \<open>n\<close> matter; \<open>dot\<close> is the
  product of a row with a vector, \<open>unitv c\<close> the unit vector of index \<open>c\<close>.
\<close>

type_synonym gf2 = "1 word"

definition dot :: "nat \<Rightarrow> (nat \<Rightarrow> gf2) \<Rightarrow> (nat \<Rightarrow> gf2) \<Rightarrow> gf2" where
  "dot n r d = (\<Sum>j<n. r j * d j)"

definition unitv :: "nat \<Rightarrow> nat \<Rightarrow> gf2" where
  "unitv c j = (if j = c then 1 else 0)"

definition mat :: "bool list list \<Rightarrow> nat \<Rightarrow> nat \<Rightarrow> gf2" where
  "mat A i k = of_bool (A ! i ! k)"

definition vec :: "bool list \<Rightarrow> nat \<Rightarrow> gf2" where
  "vec b i = of_bool (b ! i)"

text \<open>\<open>Z\<close> satisfies the equations of the rows from \<open>c\<close> on.\<close>

definition solves :: "nat \<Rightarrow> nat \<Rightarrow> bool list list \<times> bool list \<Rightarrow> (nat \<Rightarrow> gf2) \<Rightarrow> bool" where
  "solves n c Ab Z \<longleftrightarrow> (\<forall>i. c \<le> i \<and> i < n \<longrightarrow> dot n (mat (fst Ab) i) Z = vec (snd Ab) i)"

subsection \<open>The invariant of the elimination on a symmetric system\<close>

text \<open>
  The loop of \<open>openBox\<close> looks for the pivot of column \<open>c\<close> from row \<open>c\<close> downwards, and when
  there is none it goes on with column \<open>c + 1\<close> and row \<open>c + 1\<close>: there is no separate
  counter of the rank. A row without pivot stays where it is, with a false diagonal entry,
  and back substitution assigns \<open>x[c]\<close> from it all the same. On an arbitrary consistent
  system that is wrong (see \<open>asymmetric_system_not_solved\<close> below). It is right on the
  systems of \<open>openBox\<close> because their matrix is symmetric, and this is the invariant that
  shows it.

  At the start of the iteration for column \<open>c\<close> let \<open>M\<close> be the matrix and \<open>D\<close> the set of
  the pending rows: the rows \<open>q \<ge> c\<close> that an earlier iteration has exchanged downwards
  and whose own column \<open>q\<close> has not been processed yet. A vector \<open>d\<close> is killed by \<open>D\<close> when
  every pending row has product 0 with it.
  \<^item> \<open>zero_left\<close>: the rows from \<open>c\<close> on are zero before column \<open>c\<close>.
  \<^item> \<open>sym_form\<close>: on the vectors killed by \<open>D\<close>, the bilinear form
    \<open>form d d' = \<Sum> i \<ge> c. d i * (M i \<bullet> d')\<close> is symmetric. With no pending row this is the
    symmetry of \<open>M\<close>.
  \<^item> \<open>inj_on_pending\<close>: for every \<open>m\<close>, a vector supported on the pending indices up to
    \<open>m\<close> and killed by the pending rows up to \<open>m\<close> is zero. So a pending row has a true
    diagonal entry when its column comes, and is its own pivot.
  \<^item> \<open>has_eps\<close>: for every index \<open>m \<ge> c\<close> that is not pending there is a vector killed by
    \<open>D\<close> with entry 1 at \<open>m\<close> and otherwise supported on pending indices below \<open>m\<close>. So a
    pending row is zero in the current column when that column is not pending.

  When column \<open>c\<close> has no pivot, symmetry of the form gives that row \<open>c\<close> has product 0 with
  every vector killed by the rows below it; the difference of the computed solution and
  a true solution is such a vector, so the equation of row \<open>c\<close> holds although back
  substitution did not use it.

  \<open>pstep\<close> is \<open>pivot_step\<close> read in the field, \<open>pivot_at\<close> says that \<open>p\<close> is the row the
  pivot search returns, and \<open>ext\<close> extends a vector on the indices after \<open>c\<close> by the entry
  at \<open>c\<close> that makes the pivot row kill it.
\<close>

definition kills :: "nat \<Rightarrow> (nat \<Rightarrow> nat \<Rightarrow> gf2) \<Rightarrow> nat set \<Rightarrow> (nat \<Rightarrow> gf2) \<Rightarrow> bool" where
  "kills n M D d \<longleftrightarrow> (\<forall>q\<in>D. dot n (M q) d = 0)"

definition form :: "nat \<Rightarrow> nat \<Rightarrow> (nat \<Rightarrow> nat \<Rightarrow> gf2) \<Rightarrow> (nat \<Rightarrow> gf2) \<Rightarrow> (nat \<Rightarrow> gf2) \<Rightarrow> gf2" where
  "form n c M d d' = (\<Sum>i\<in>{c..<n}. d i * dot n (M i) d')"

definition ext :: "nat \<Rightarrow> nat \<Rightarrow> (nat \<Rightarrow> gf2) \<Rightarrow> (nat \<Rightarrow> gf2) \<Rightarrow> (nat \<Rightarrow> gf2)" where
  "ext n c r d = d(c := dot n r d + d c)"

definition pstep :: "nat \<Rightarrow> nat \<Rightarrow> nat \<Rightarrow> (nat \<Rightarrow> nat \<Rightarrow> gf2) \<Rightarrow> (nat \<Rightarrow> nat \<Rightarrow> gf2) \<Rightarrow> bool" where
  "pstep n c p M M' \<longleftrightarrow>
     (\<forall>i k. c < i \<and> i < n \<and> k < n \<longrightarrow> M' i k = M (tr c p i) k + M (tr c p i) c * M p k)"

definition pivot_at :: "nat \<Rightarrow> nat \<Rightarrow> nat \<Rightarrow> (nat \<Rightarrow> nat \<Rightarrow> gf2) \<Rightarrow> bool" where
  "pivot_at n c p M \<longleftrightarrow> c \<le> p \<and> p < n \<and> M p c = 1 \<and> (\<forall>i. c \<le> i \<and> i < p \<longrightarrow> M i c = 0)"

definition zero_left :: "nat \<Rightarrow> nat \<Rightarrow> (nat \<Rightarrow> nat \<Rightarrow> gf2) \<Rightarrow> bool" where
  "zero_left n c M \<longleftrightarrow> (\<forall>i k. c \<le> i \<and> i < n \<and> k < c \<longrightarrow> M i k = 0)"

definition sym_form :: "nat \<Rightarrow> nat \<Rightarrow> (nat \<Rightarrow> nat \<Rightarrow> gf2) \<Rightarrow> nat set \<Rightarrow> bool" where
  "sym_form n c M D \<longleftrightarrow>
     (\<forall>d d'. kills n M D d \<longrightarrow> kills n M D d' \<longrightarrow> form n c M d d' = form n c M d' d)"

definition inj_on_pending :: "nat \<Rightarrow> (nat \<Rightarrow> nat \<Rightarrow> gf2) \<Rightarrow> nat set \<Rightarrow> bool" where
  "inj_on_pending n M D \<longleftrightarrow>
     (\<forall>m u. (\<forall>j. u j \<noteq> 0 \<longrightarrow> j \<in> D \<and> j \<le> m) \<longrightarrow>
            (\<forall>q\<in>D. q \<le> m \<longrightarrow> dot n (M q) u = 0) \<longrightarrow> (\<forall>j. u j = 0))"

definition has_eps :: "nat \<Rightarrow> nat \<Rightarrow> (nat \<Rightarrow> nat \<Rightarrow> gf2) \<Rightarrow> nat set \<Rightarrow> bool" where
  "has_eps n c M D \<longleftrightarrow>
     (\<forall>m. c \<le> m \<and> m < n \<and> m \<notin> D \<longrightarrow>
        (\<exists>u. u m = 1 \<and> (\<forall>j. u j \<noteq> 0 \<longrightarrow> j = m \<or> (j \<in> D \<and> j < m)) \<and> kills n M D u))"

definition elim_inv :: "nat \<Rightarrow> nat \<Rightarrow> (nat \<Rightarrow> nat \<Rightarrow> gf2) \<Rightarrow> nat set \<Rightarrow> bool" where
  "elim_inv n c M D \<longleftrightarrow>
     D \<subseteq> {c..<n} \<and> zero_left n c M \<and> sym_form n c M D \<and> inj_on_pending n M D \<and> has_eps n c M D"

subsection \<open>Reachable boxes\<close>

text \<open>
  \<open>blank y x\<close> is the box before \<open>shuffle\<close>; \<open>toggle_all ps\<close> toggles the positions of \<open>ps\<close>
  in order. A state is reachable when \<open>toggle_all ps (blank y x)\<close> returns it for positions
  within the grid. \<open>gvec\<close> reads the cells of a box in the linear order of \<open>openBox\<close>,
  \<open>fmat\<close> is the footprint as a matrix over the field, and a box is \<open>consistent\<close> when its
  cells are the product of that matrix with some vector of toggles.
\<close>

definition blank :: "nat \<Rightarrow> nat \<Rightarrow> SecureBox" where
  "blank y x = \<lparr>box = replicate y (replicate x False), ySize = y, xSize = x\<rparr>"

definition toggle_all :: "(nat \<times> nat) list \<Rightarrow> SecureBox \<Rightarrow> error + SecureBox" where
  "toggle_all ps s = for_each ps (\<lambda>p s. toggle s (fst p) (snd p)) s"

definition gvec :: "nat \<Rightarrow> SecureBox \<Rightarrow> nat \<Rightarrow> gf2" where
  "gvec x s j = of_bool (box s ! (j div x) ! (j mod x))"

definition fmat :: "nat \<Rightarrow> nat \<Rightarrow> nat \<Rightarrow> gf2" where
  "fmat x i j = of_bool (footprint x i j)"

definition sized :: "nat \<Rightarrow> nat \<Rightarrow> SecureBox \<Rightarrow> bool" where
  "sized y x s \<longleftrightarrow> wf_box s \<and> ySize s = y \<and> xSize s = x"

definition consistent :: "nat \<Rightarrow> nat \<Rightarrow> SecureBox \<Rightarrow> bool" where
  "consistent y x s \<longleftrightarrow> sized y x s \<and> (\<exists>Z. \<forall>j<y * x. gvec x s j = dot (y * x) (fmat x j) Z)"

section \<open>Loops and the toggle\<close>

lemma for_each_append:
  "for_each (xs @ ys) body s =
     (case for_each xs body s of Inl e \<Rightarrow> Inl e | Inr s' \<Rightarrow> for_each ys body s')"
  by (induction xs arbitrary: s) (auto split: sum.splits)

lemma for_each_upt_rule:
  assumes "I a s"
    and "\<And>k t. a \<le> k \<Longrightarrow> k < n \<Longrightarrow> I k t \<Longrightarrow> \<exists>t'. body k t = Inr t' \<and> I (Suc k) t'"
    and "a \<le> n"
  shows "\<exists>s'. for_each [a..<n] body s = Inr s' \<and> I n s'"
  using assms(3,1,2)
proof (induction n rule: dec_induct)
  case base
  then show ?case by simp
next
  case (step m)
  from step.IH [OF step.prems(1)] step.prems(2) step.hyps
  obtain t where t: "for_each [a..<m] body s = Inr t" "I m t"
    by (metis le_Suc_eq less_Suc_eq nat_less_le)
  from step.prems(2) [of m t] step.hyps t(2)
  obtain t' where "body m t = Inr t'" "I (Suc m) t'" by auto
  with t step.hyps show ?case
    by (simp add: upt_Suc_append for_each_append)
qed

lemma grid_eqI:
  assumes "dims g ys xs" "dims h ys xs"
    and "\<And>i j. i < ys \<Longrightarrow> j < xs \<Longrightarrow> g ! i ! j = h ! i ! j"
  shows "g = h"
proof (rule nth_equalityI)
  show "length g = length h" using assms(1,2) by (simp add: dims_def)
next
  fix i assume "i < length g"
  then have i: "i < ys" using assms(1) by (simp add: dims_def)
  show "g ! i = h ! i"
  proof (rule nth_equalityI)
    show "length (g ! i) = length (h ! i)" using assms(1,2) i by (simp add: dims_def)
  next
    fix j assume "j < length (g ! i)"
    then have "j < xs" using assms(1) i by (simp add: dims_def)
    then show "g ! i ! j = h ! i ! j" using assms(3) i by simp
  qed
qed

lemma flip_cells:
  assumes "dims g ys xs" "i < ys" "j < xs"
  shows "\<exists>g'. flip g i j = Inr g' \<and> dims g' ys xs \<and>
           (\<forall>i'<ys. \<forall>j'<xs. g' ! i' ! j' = (g ! i' ! j' \<noteq> (i' = i \<and> j' = j)))"
  using assms
  by (auto simp: flip_def dims_def nth_list_update)

lemma toggle_cells:
  assumes wf: "wf_box s" and r: "r < ySize s" and c: "c < xSize s"
  shows "\<exists>s'. toggle s r c = Inr s' \<and> wf_box s' \<and> ySize s' = ySize s \<and> xSize s' = xSize s \<and>
           (\<forall>i<ySize s. \<forall>j<xSize s. box s' ! i ! j = (box s ! i ! j \<noteq> (i = r \<or> j = c)))"
proof -
  let ?ys = "ySize s" and ?xs = "xSize s" and ?g = "box s"
  from wf have d0: "dims ?g ?ys ?xs" by (simp add: wf_box_def)
  from flip_cells [OF d0 r c] obtain g1 where
    g1: "flip ?g r c = Inr g1" "dims g1 ?ys ?xs"
      "\<forall>i<?ys. \<forall>j<?xs. g1 ! i ! j = (?g ! i ! j \<noteq> (i = r \<and> j = c))" by blast
  let ?I1 = "\<lambda>k g. dims g ?ys ?xs \<and>
      (\<forall>i<?ys. \<forall>j<?xs. g ! i ! j = (g1 ! i ! j \<noteq> (i = r \<and> j < k)))"
  have "\<exists>g2. for_each [0..<?xs] (\<lambda>i g. flip g r i) g1 = Inr g2 \<and> ?I1 ?xs g2"
  proof (rule for_each_upt_rule [where I = ?I1])
    show "?I1 0 g1" using g1(2) by simp
  next
    fix k t assume k: "k < ?xs" and t: "?I1 k t"
    from t have dt: "dims t ?ys ?xs" by simp
    from flip_cells [OF dt r k] obtain t' where
      t': "flip t r k = Inr t'" "dims t' ?ys ?xs"
        "\<forall>i<?ys. \<forall>j<?xs. t' ! i ! j = (t ! i ! j \<noteq> (i = r \<and> j = k))" by blast
    have "\<forall>i<?ys. \<forall>j<?xs. t' ! i ! j = (g1 ! i ! j \<noteq> (i = r \<and> j < Suc k))"
      using t t'(3) by (auto simp: less_Suc_eq)
    with t' show "\<exists>t'. flip t r k = Inr t' \<and> ?I1 (Suc k) t'" by blast
  qed simp
  then obtain g2 where
    g2: "for_each [0..<?xs] (\<lambda>i g. flip g r i) g1 = Inr g2" "dims g2 ?ys ?xs"
      "\<forall>i<?ys. \<forall>j<?xs. g2 ! i ! j = (g1 ! i ! j \<noteq> (i = r \<and> j < ?xs))" by blast
  let ?I2 = "\<lambda>k g. dims g ?ys ?xs \<and>
      (\<forall>i<?ys. \<forall>j<?xs. g ! i ! j = (g2 ! i ! j \<noteq> (j = c \<and> i < k)))"
  have "\<exists>g3. for_each [0..<?ys] (\<lambda>i g. flip g i c) g2 = Inr g3 \<and> ?I2 ?ys g3"
  proof (rule for_each_upt_rule [where I = ?I2])
    show "?I2 0 g2" using g2(2) by simp
  next
    fix k t assume k: "k < ?ys" and t: "?I2 k t"
    from t have dt: "dims t ?ys ?xs" by simp
    from flip_cells [OF dt k c] obtain t' where
      t': "flip t k c = Inr t'" "dims t' ?ys ?xs"
        "\<forall>i<?ys. \<forall>j<?xs. t' ! i ! j = (t ! i ! j \<noteq> (i = k \<and> j = c))" by blast
    have "\<forall>i<?ys. \<forall>j<?xs. t' ! i ! j = (g2 ! i ! j \<noteq> (j = c \<and> i < Suc k))"
      using t t'(3) by (auto simp: less_Suc_eq)
    with t' show "\<exists>t'. flip t k c = Inr t' \<and> ?I2 (Suc k) t'" by blast
  qed simp
  then obtain g3 where
    g3: "for_each [0..<?ys] (\<lambda>i g. flip g i c) g2 = Inr g3" "dims g3 ?ys ?xs"
      "\<forall>i<?ys. \<forall>j<?xs. g3 ! i ! j = (g2 ! i ! j \<noteq> (j = c \<and> i < ?ys))" by blast
  have tg: "toggle s r c = Inr (s\<lparr>box := g3\<rparr>)"
    by (simp add: toggle_def g1(1) g2(1) g3(1))
  have cells: "\<forall>i<?ys. \<forall>j<?xs. g3 ! i ! j = (?g ! i ! j \<noteq> (i = r \<or> j = c))"
    using g1(3) g2(3) g3(3) by auto
  show ?thesis
    using tg g3(2) cells by (simp add: wf_box_def)
qed

text \<open>
  Claim C9. On a box whose vector has \<open>ySize\<close> rows of \<open>xSize\<close> cells, and for a position
  \<open>(r, c)\<close> within those sizes, \<open>toggle(r, c)\<close> succeeds, and a second \<open>toggle(r, c)\<close>
  on its result succeeds and gives back exactly the box the first call started from.
\<close>

theorem toggle_twice_restores:
  assumes "wf_box s" "r < ySize s" "c < xSize s"
  shows "\<exists>s1. toggle s r c = Inr s1 \<and> toggle s1 r c = Inr s"
proof -
  from toggle_cells [OF assms] obtain s1 where
    s1: "toggle s r c = Inr s1" "wf_box s1" "ySize s1 = ySize s" "xSize s1 = xSize s"
      "\<forall>i<ySize s. \<forall>j<xSize s. box s1 ! i ! j = (box s ! i ! j \<noteq> (i = r \<or> j = c))"
    by blast
  from assms(2,3) s1(3,4) have rc: "r < ySize s1" "c < xSize s1" by simp_all
  from toggle_cells [OF s1(2) rc] obtain s2 where
    s2: "toggle s1 r c = Inr s2" "wf_box s2" "ySize s2 = ySize s1" "xSize s2 = xSize s1"
      "\<forall>i<ySize s1. \<forall>j<xSize s1. box s2 ! i ! j = (box s1 ! i ! j \<noteq> (i = r \<or> j = c))"
    by blast
  have "box s2 = box s"
  proof (rule grid_eqI)
    show "dims (box s2) (ySize s) (xSize s)" using s2(2,3,4) s1(3,4) by (simp add: wf_box_def)
    show "dims (box s) (ySize s) (xSize s)" using assms(1) by (simp add: wf_box_def)
  next
    fix i j assume "i < ySize s" "j < xSize s"
    then show "box s2 ! i ! j = box s ! i ! j" using s1(3,4,5) s2(5) by auto
  qed
  then have "s2 = s" using s2(3,4) s1(3,4) by simp
  with s1(1) s2(1) show ?thesis by simp
qed

theorem toggle_twice_restores_witness:
  "\<exists>s1. toggle \<lparr>box = [[True, False], [False, True]], ySize = 2, xSize = 2\<rparr> 0 1 = Inr s1 \<and>
      toggle s1 0 1 = Inr \<lparr>box = [[True, False], [False, True]], ySize = 2, xSize = 2\<rparr>"
  using toggle_twice_restores [of "\<lparr>box = [[True, False], [False, True]], ySize = 2, xSize = 2\<rparr>" 0 1]
  by (simp add: wf_box_def dims_def less_Suc_eq numeral_2_eq_2 all_conj_distrib)


section \<open>System construction\<close>

lemma set2_cells:
  assumes "dims A n m" "i < n" "j < m"
  shows "\<exists>A'. set2 A i j v = Inr A' \<and> dims A' n m \<and>
           (\<forall>i'<n. \<forall>j'<m. A' ! i' ! j' = (if i' = i \<and> j' = j then v else A ! i' ! j'))"
  using assms by (auto simp: set2_def dims_def nth_list_update)

lemma lin_index_less: "row < y \<Longrightarrow> col < x \<Longrightarrow> row * x + col < y * (x::nat)"
proof -
  assume a: "row < y" "col < x"
  then have "row * x + col < row * x + x" by simp
  also have "\<dots> = Suc row * x" by simp
  also have "\<dots> \<le> y * x" using a(1) by (intro mult_le_mono1) simp
  finally show ?thesis .
qed

lemma lin_index_div: "col < x \<Longrightarrow> (row * x + col) div x = (row::nat)"
  by simp

lemma lin_index_mod: "col < x \<Longrightarrow> (row * x + col) mod x = (col::nat)"
  by simp

lemma div_less_of_less_mult: "j < y * x \<Longrightarrow> j div x < (y::nat)"
  by (simp add: less_mult_imp_div_less mult.commute)

lemma same_row_iff:
  assumes "0 < (x::nat)"
  shows "(\<exists>i<x. j = row * x + i) \<longleftrightarrow> j div x = row"
proof
  assume "\<exists>i<x. j = row * x + i" then show "j div x = row" by auto
next
  assume "j div x = row"
  then have "j = row * x + j mod x" by (metis div_mult_mod_eq)
  moreover have "j mod x < x" using assms by simp
  ultimately show "\<exists>i<x. j = row * x + i" by blast
qed

lemma same_col_iff:
  assumes "j < y * (x::nat)" "col < x"
  shows "(\<exists>i<y. j = i * x + col) \<longleftrightarrow> j mod x = col"
proof
  assume "\<exists>i<y. j = i * x + col" then show "j mod x = col" using assms(2) by auto
next
  assume "j mod x = col"
  then have "j = (j div x) * x + col" by (metis div_mult_mod_eq)
  moreover have "j div x < y" using assms(1) by (rule div_less_of_less_mult)
  ultimately show "\<exists>i<y. j = i * x + col" by blast
qed

lemma build_cell_step:
  assumes wf: "wf_box bx" "ySize bx = y" "xSize bx = x"
    and n: "y * x < 4294967296"
    and rc: "row < y" "col < x"
    and inv: "built bx x (y * x) (row * x + col) Ab"
  shows "\<exists>Ab'. build_cell bx y x row col Ab = Inr Ab' \<and> built bx x (y * x) (Suc (row * x + col)) Ab'"
proof -
  obtain A b where Ab: "Ab = (A, b)" by (cases Ab)
  let ?n = "y * x" and ?m = "row * x + col"
  have m: "?m < ?n" using rc by (rule lin_index_less)
  have xpos: "0 < x" using rc(2) by simp
  have u: "\<And>k. k < ?n \<Longrightarrow> u32 k = k" using n by (simp add: u32_def)
  from inv Ab have dA: "dims A ?n ?n" and lb: "length b = ?n"
    and cA: "\<forall>i<?n. \<forall>j<?n. A ! i ! j = (i < ?m \<and> footprint x i j)"
    and cb: "\<forall>i<?n. b ! i = (i < ?m \<and> box bx ! (i div x) ! (i mod x))"
    by (simp_all add: built_def)
  from wf rc have g: "row < length (box bx)" "col < length (box bx ! row)"
    by (simp_all add: wf_box_def dims_def)
  from set2_cells [OF dA m m] obtain A1 where
    A1: "set2 A ?m ?m True = Inr A1" "dims A1 ?n ?n"
      "\<forall>i'<?n. \<forall>j'<?n. A1 ! i' ! j' = (if i' = ?m \<and> j' = ?m then True else A ! i' ! j')"
    by blast
  let ?K1 = "\<lambda>k B. dims B ?n ?n \<and>
     (\<forall>i'<?n. \<forall>j'<?n. B ! i' ! j' = (A1 ! i' ! j' \<or> (i' = ?m \<and> (\<exists>i<k. j' = row * x + i))))"
  have "\<exists>A2. for_each [0..<x] (\<lambda>i A. set2 A ?m (u32 (row * x + i)) True) A1 = Inr A2 \<and> ?K1 x A2"
  proof (rule for_each_upt_rule [where I = ?K1])
    show "?K1 0 A1" using A1(2) by simp
  next
    fix k t assume k: "k < x" and t: "?K1 k t"
    have kk: "row * x + k < ?n" using rc(1) k by (rule lin_index_less)
    from t have dt: "dims t ?n ?n" by simp
    from set2_cells [OF dt m kk] obtain t' where
      t': "set2 t ?m (row * x + k) True = Inr t'" "dims t' ?n ?n"
        "\<forall>i'<?n. \<forall>j'<?n. t' ! i' ! j' = (if i' = ?m \<and> j' = row * x + k then True else t ! i' ! j')"
      by blast
    have "\<forall>i'<?n. \<forall>j'<?n. t' ! i' ! j' = (A1 ! i' ! j' \<or> (i' = ?m \<and> (\<exists>i<Suc k. j' = row * x + i)))"
      using t t'(3) by (auto simp: less_Suc_eq)
    with t' show "\<exists>t'. set2 t ?m (u32 (row * x + k)) True = Inr t' \<and> ?K1 (Suc k) t'"
      by (simp add: u [OF kk])
  qed simp
  then obtain A2 where
    A2: "for_each [0..<x] (\<lambda>i A. set2 A ?m (u32 (row * x + i)) True) A1 = Inr A2" "dims A2 ?n ?n"
      "\<forall>i'<?n. \<forall>j'<?n. A2 ! i' ! j' = (A1 ! i' ! j' \<or> (i' = ?m \<and> (\<exists>i<x. j' = row * x + i)))"
    by blast
  let ?K2 = "\<lambda>k B. dims B ?n ?n \<and>
     (\<forall>i'<?n. \<forall>j'<?n. B ! i' ! j' = (A2 ! i' ! j' \<or> (i' = ?m \<and> (\<exists>i<k. j' = i * x + col))))"
  have "\<exists>A3. for_each [0..<y] (\<lambda>i A. set2 A ?m (u32 (i * x + col)) True) A2 = Inr A3 \<and> ?K2 y A3"
  proof (rule for_each_upt_rule [where I = ?K2])
    show "?K2 0 A2" using A2(2) by simp
  next
    fix k t assume k: "k < y" and t: "?K2 k t"
    have kk: "k * x + col < ?n" using k rc(2) by (rule lin_index_less)
    from t have dt: "dims t ?n ?n" by simp
    from set2_cells [OF dt m kk] obtain t' where
      t': "set2 t ?m (k * x + col) True = Inr t'" "dims t' ?n ?n"
        "\<forall>i'<?n. \<forall>j'<?n. t' ! i' ! j' = (if i' = ?m \<and> j' = k * x + col then True else t ! i' ! j')"
      by blast
    have "\<forall>i'<?n. \<forall>j'<?n. t' ! i' ! j' = (A2 ! i' ! j' \<or> (i' = ?m \<and> (\<exists>i<Suc k. j' = i * x + col)))"
      using t t'(3) by (auto simp: less_Suc_eq)
    with t' show "\<exists>t'. set2 t ?m (u32 (k * x + col)) True = Inr t' \<and> ?K2 (Suc k) t'"
      by (simp add: u [OF kk])
  qed simp
  then obtain A3 where
    A3: "for_each [0..<y] (\<lambda>i A. set2 A ?m (u32 (i * x + col)) True) A2 = Inr A3" "dims A3 ?n ?n"
      "\<forall>i'<?n. \<forall>j'<?n. A3 ! i' ! j' = (A2 ! i' ! j' \<or> (i' = ?m \<and> (\<exists>i<y. j' = i * x + col)))"
    by blast
  have run: "build_cell bx y x row col Ab = Inr (A3, b[?m := box bx ! row ! col])"
    using m g lb by (simp add: build_cell_def Ab getState_def u [OF m] A1(1) A2(1) A3(1))
  have cells: "A3 ! i ! j = (i < Suc ?m \<and> footprint x i j)" if ij: "i < ?n" "j < ?n" for i j
  proof (cases "i = ?m")
    case True
    have "A3 ! i ! j = (j = ?m \<or> j div x = row \<or> j mod x = col)"
      using ij True A1(3) A2(3) A3(3) cA same_row_iff [OF xpos, of j row]
        same_col_iff [OF ij(2) rc(2)] by auto
    also have "\<dots> = footprint x i j"
      using True rc(2) by (auto simp: footprint_def)
    finally show ?thesis using True by simp
  next
    case False
    then have "A3 ! i ! j = A ! i ! j" using ij A1(3) A2(3) A3(3) by simp
    then show ?thesis using ij cA False by (auto simp: less_Suc_eq)
  qed
  have rhs: "b[?m := box bx ! row ! col] ! i = (i < Suc ?m \<and> box bx ! (i div x) ! (i mod x))"
    if i: "i < ?n" for i
    using i cb lb m rc(2) by (auto simp: nth_list_update less_Suc_eq)
  show ?thesis
    unfolding run using A3(2) lb cells rhs by (simp add: built_def)
qed

lemma build_system_result:
  assumes wf: "wf_box bx" "ySize bx = y" "xSize bx = x"
    and n: "y * x < 4294967296"
  shows "\<exists>Ab. build_system bx y x (u32 (y * x)) = Inr Ab \<and> built bx x (y * x) (y * x) Ab"
proof -
  let ?n = "y * x"
  let ?init = "(replicate ?n (replicate ?n False), replicate ?n False)"
  have un: "u32 ?n = ?n" using n by (simp add: u32_def)
  have init: "built bx x ?n (0 * x) ?init"
    by (simp add: built_def dims_def)
  have "\<exists>Ab. for_each [0..<y] (\<lambda>row. for_each [0..<x] (\<lambda>col. build_cell bx y x row col)) ?init
           = Inr Ab \<and> built bx x ?n (y * x) Ab"
  proof (rule for_each_upt_rule [where I = "\<lambda>row. built bx x ?n (row * x)"])
    show "built bx x ?n (0 * x) ?init" by (rule init)
  next
    fix row t assume row: "row < y" and t: "built bx x ?n (row * x) t"
    have "\<exists>t'. for_each [0..<x] (\<lambda>col. build_cell bx y x row col) t = Inr t' \<and>
            built bx x ?n (row * x + x) t'"
    proof (rule for_each_upt_rule [where I = "\<lambda>col. built bx x ?n (row * x + col)"])
      show "built bx x ?n (row * x + 0) t" using t by simp
    next
      fix col s assume "col < x" and "built bx x ?n (row * x + col) s"
      with build_cell_step [OF wf n row]
      show "\<exists>t'. build_cell bx y x row col s = Inr t' \<and> built bx x ?n (row * x + Suc col) t'"
        by simp
    qed simp
    then show "\<exists>t'. for_each [0..<x] (\<lambda>col. build_cell bx y x row col) t = Inr t' \<and>
            built bx x ?n (Suc row * x) t'"
      by (simp add: add.commute)
  qed simp
  then show ?thesis by (simp add: build_system_def un)
qed

text \<open>
  Claim C5. When \<open>y * x\<close> fits in 32 bits, the construction loops of \<open>openBox\<close> finish
  without leaving a vector, and afterwards \<open>b[row * x + col]\<close> is the cell \<open>(row, col)\<close> of
  the box and \<open>A[i][j]\<close> is true exactly when \<open>j\<close> is in the row of \<open>i\<close>, or in the column
  of \<open>i\<close>, or is \<open>i\<close> itself. The loops only read the box: the replay that follows starts
  from the box the construction was given.
\<close>

theorem build_system_footprint:
  assumes "wf_box bx" "ySize bx = y" "xSize bx = x" "y * x < 4294967296"
  shows "\<exists>A b. build_system bx y x (u32 (y * x)) = Inr (A, b) \<and>
           dims A (y * x) (y * x) \<and> length b = y * x \<and>
           (\<forall>row<y. \<forall>col<x. b ! (row * x + col) = box bx ! row ! col) \<and>
           (\<forall>i<y * x. \<forall>j<y * x.
               A ! i ! j = (i div x = j div x \<or> i mod x = j mod x \<or> j = i)) \<and>
           solve_box y x bx =
             (case back_substitute (y * x) (eliminate (y * x) (A, b)) of Inl e \<Rightarrow> Inl e
              | Inr xResult \<Rightarrow> apply_toggles x (y * x) xResult bx)"
proof -
  from build_system_result [OF assms] obtain A b where
    r: "build_system bx y x (u32 (y * x)) = Inr (A, b)" "built bx x (y * x) (y * x) (A, b)"
    by (metis surj_pair)
  have 1: "dims A (y * x) (y * x)" and 2: "length b = y * x"
    using r(2) by (simp_all add: built_def)
  have 3: "\<forall>row<y. \<forall>col<x. b ! (row * x + col) = box bx ! row ! col"
  proof (intro allI impI)
    fix row col assume rc: "row < y" "col < x"
    from lin_index_less [OF rc] r(2) rc(2) show "b ! (row * x + col) = box bx ! row ! col"
      by (simp add: built_def)
  qed
  have 4: "\<forall>i<y * x. \<forall>j<y * x. A ! i ! j = (i div x = j div x \<or> i mod x = j mod x \<or> j = i)"
    using r(2) by (auto simp: built_def footprint_def)
  have "u32 (y * x) = y * x" using assms(4) by (simp add: u32_def)
  then have 5: "solve_box y x bx =
      (case back_substitute (y * x) (eliminate (y * x) (A, b)) of Inl e \<Rightarrow> Inl e
       | Inr xResult \<Rightarrow> apply_toggles x (y * x) xResult bx)"
    using r(1) by (simp add: solve_box_def Let_def)
  from r(1) 1 2 3 4 5 show ?thesis by blast
qed

theorem build_system_footprint_witness:
  "\<exists>A b. build_system \<lparr>box = [[True, False], [False, False]], ySize = 2, xSize = 2\<rparr> 2 2 (u32 (2 * 2))
            = Inr (A, b) \<and>
      dims A (2 * 2) (2 * 2) \<and> length b = 2 * 2 \<and>
      (\<forall>row<2. \<forall>col<2. b ! (row * 2 + col) =
          box \<lparr>box = [[True, False], [False, False]], ySize = 2, xSize = 2\<rparr> ! row ! col) \<and>
      (\<forall>i<2 * 2. \<forall>j<2 * 2. A ! i ! j = (i div 2 = j div 2 \<or> i mod 2 = j mod 2 \<or> j = i)) \<and>
      solve_box 2 2 \<lparr>box = [[True, False], [False, False]], ySize = 2, xSize = 2\<rparr> =
        (case back_substitute (2 * 2) (eliminate (2 * 2) (A, b)) of Inl e \<Rightarrow> Inl e
         | Inr xResult \<Rightarrow>
             apply_toggles 2 (2 * 2) xResult
               \<lparr>box = [[True, False], [False, False]], ySize = 2, xSize = 2\<rparr>)"
proof -
  let ?bx = "\<lparr>box = [[True, False], [False, False]], ySize = 2, xSize = 2\<rparr>"
  have "wf_box ?bx" by (simp add: wf_box_def dims_def less_Suc_eq numeral_2_eq_2)
  moreover have "ySize ?bx = 2" "xSize ?bx = 2" "(2::nat) * 2 < 4294967296" by simp_all
  ultimately show ?thesis by (rule build_system_footprint)
qed

text \<open>
  Claim C10. The matrix \<open>A\<close> that \<open>openBox\<close> builds is symmetric, \<open>A[i][j] = A[j][i]\<close> for
  all \<open>i, j < y * x\<close>, and it is the same matrix whatever the cells of the box are: two boxes
  of the same sizes give the same \<open>A\<close> (only \<open>b\<close> differs).
\<close>

theorem build_system_symmetric:
  assumes "wf_box bx" "ySize bx = y" "xSize bx = x"
    and "wf_box bx'" "ySize bx' = y" "xSize bx' = x"
    and "y * x < 4294967296"
  shows "\<exists>A b b'. build_system bx y x (u32 (y * x)) = Inr (A, b) \<and>
           build_system bx' y x (u32 (y * x)) = Inr (A, b') \<and>
           (\<forall>i<y * x. \<forall>j<y * x. A ! i ! j = A ! j ! i)"
proof -
  from build_system_result [OF assms(1,2,3,7)] obtain A b where
    r: "build_system bx y x (u32 (y * x)) = Inr (A, b)" "built bx x (y * x) (y * x) (A, b)"
    by (metis surj_pair)
  from build_system_result [OF assms(4,5,6,7)] obtain A' b' where
    r': "build_system bx' y x (u32 (y * x)) = Inr (A', b')" "built bx' x (y * x) (y * x) (A', b')"
    by (metis surj_pair)
  have "A' = A"
  proof (rule grid_eqI)
    show "dims A' (y * x) (y * x)" "dims A (y * x) (y * x)"
      using r(2) r'(2) by (simp_all add: built_def)
  next
    fix i j assume "i < y * x" "j < y * x"
    then show "A' ! i ! j = A ! i ! j" using r(2) r'(2) by (simp add: built_def)
  qed
  moreover have "A ! i ! j = A ! j ! i" if "i < y * x" "j < y * x" for i j
    using r(2) that by (auto simp: built_def footprint_def)
  ultimately show ?thesis using r(1) r'(1) by blast
qed

theorem build_system_symmetric_witness:
  "\<exists>A b b'. build_system \<lparr>box = [[True, False], [False, False]], ySize = 2, xSize = 2\<rparr> 2 2 (u32 (2 * 2))
               = Inr (A, b) \<and>
     build_system \<lparr>box = [[False, True], [True, True]], ySize = 2, xSize = 2\<rparr> 2 2 (u32 (2 * 2))
               = Inr (A, b') \<and>
     (\<forall>i<2 * 2. \<forall>j<2 * 2. A ! i ! j = A ! j ! i)"
proof -
  let ?bx = "\<lparr>box = [[True, False], [False, False]], ySize = 2, xSize = 2\<rparr>"
  let ?bx' = "\<lparr>box = [[False, True], [True, True]], ySize = 2, xSize = 2\<rparr>"
  have "wf_box ?bx" by (simp add: wf_box_def dims_def less_Suc_eq numeral_2_eq_2)
  moreover have "ySize ?bx = 2" "xSize ?bx = 2" by simp_all
  moreover have "wf_box ?bx'" by (simp add: wf_box_def dims_def less_Suc_eq numeral_2_eq_2)
  moreover have "ySize ?bx' = 2" "xSize ?bx' = 2" "(2::nat) * 2 < 4294967296" by simp_all
  ultimately show ?thesis by (rule build_system_symmetric)
qed


section \<open>Forward elimination\<close>

lemma fold_upt_rule:
  assumes "I a s"
    and "\<And>k t. a \<le> k \<Longrightarrow> k < n \<Longrightarrow> I k t \<Longrightarrow> I (Suc k) (f k t)"
    and "a \<le> n"
  shows "I n (fold f [a..<n] s)"
  using assms(3,1,2)
proof (induction n rule: dec_induct)
  case base
  then show ?case by simp
next
  case (step m)
  have "I m (fold f [a..<m] s)"
    using step.IH [OF step.prems(1)] step.prems(2) step.hyps by simp
  then have "I (Suc m) (f m (fold f [a..<m] s))"
    using step.prems(2) [of m] step.hyps by simp
  then show ?case using step.hyps by (simp add: upt_Suc_append)
qed

lemma find_pivot_from:
  "s \<le> n \<Longrightarrow>
     s \<le> find_pivot n A c s \<and> find_pivot n A c s \<le> n \<and>
     (find_pivot n A c s < n \<longrightarrow> A ! find_pivot n A c s ! c) \<and>
     (\<forall>i. s \<le> i \<and> i < find_pivot n A c s \<longrightarrow> \<not> A ! i ! c)"
proof (induction n A c s rule: find_pivot.induct)
  case (1 n A col pivot)
  show ?case
  proof (cases "pivot < n \<and> \<not> A ! pivot ! col")
    case True
    then have eq: "find_pivot n A col pivot = find_pivot n A col (Suc pivot)"
      by (subst find_pivot.simps) simp
    from True have "Suc pivot \<le> n" by simp
    from "1.IH" [OF True this]
    have ih: "Suc pivot \<le> find_pivot n A col (Suc pivot)" "find_pivot n A col (Suc pivot) \<le> n"
      "find_pivot n A col (Suc pivot) < n \<longrightarrow> A ! find_pivot n A col (Suc pivot) ! col"
      "\<forall>i. Suc pivot \<le> i \<and> i < find_pivot n A col (Suc pivot) \<longrightarrow> \<not> A ! i ! col"
      by simp_all
    have "\<not> A ! i ! col" if "pivot \<le> i" "i < find_pivot n A col (Suc pivot)" for i
    proof (cases "i = pivot")
      case True
      then show ?thesis using \<open>pivot < n \<and> \<not> A ! pivot ! col\<close> by simp
    next
      case False
      then have "Suc pivot \<le> i" using that(1) by simp
      then show ?thesis using ih(4) that(2) by simp
    qed
    then show ?thesis
      unfolding eq using ih(1,2,3) by auto
  next
    case False
    then have eq: "find_pivot n A col pivot = pivot"
      by (subst find_pivot.simps) auto
    from False "1.prems" show ?thesis unfolding eq by auto
  qed
qed

lemma xor_row_cells:
  assumes d: "dims A n n" and r: "row < n" "c < n" "row \<noteq> c"
  shows "dims (xor_row n c row A) n n \<and>
         (\<forall>i<n. \<forall>k<n. xor_row n c row A ! i ! k =
             (if i = row \<and> c \<le> k then A ! row ! k \<noteq> A ! c ! k else A ! i ! k))"
proof -
  let ?f = "\<lambda>k A. A[row := (A ! row)[k := (A ! row ! k) \<noteq> (A ! c ! k)]]"
  let ?I = "\<lambda>m B. dims B n n \<and>
     (\<forall>i<n. \<forall>k<n. B ! i ! k = (if i = row \<and> c \<le> k \<and> k < m then A ! row ! k \<noteq> A ! c ! k else A ! i ! k))"
  have "?I n (fold ?f [c..<n] A)"
  proof (rule fold_upt_rule [where I = ?I])
    show "?I c A" using d by auto
  next
    fix m t assume m: "c \<le> m" "m < n" and t: "?I m t"
    from t have dt: "dims t n n" by simp
    have "dims (?f m t) n n" using dt r by (auto simp: dims_def nth_list_update)
    moreover have "\<forall>i<n. \<forall>k<n. ?f m t ! i ! k =
        (if i = row \<and> c \<le> k \<and> k < Suc m then A ! row ! k \<noteq> A ! c ! k else A ! i ! k)"
      using t r m dt by (auto simp: dims_def nth_list_update less_Suc_eq)
    ultimately show "?I (Suc m) (?f m t)" by blast
  next
    show "c \<le> n" using r by simp
  qed
  then show ?thesis by (simp add: xor_row_def)
qed

lemma eliminate_below_cells:
  assumes d: "dims A n n" "length b = n" and c: "c < n"
  shows "\<exists>A' b'. eliminate_below n c (A, b) = (A', b') \<and> dims A' n n \<and> length b' = n \<and>
           (\<forall>i<n. \<forall>k<n. A' ! i ! k =
               (if c < i \<and> A ! i ! c \<and> c \<le> k then A ! i ! k \<noteq> A ! c ! k else A ! i ! k)) \<and>
           (\<forall>i<n. b' ! i = (if c < i \<and> A ! i ! c then b ! i \<noteq> b ! c else b ! i))"
proof -
  let ?f = "\<lambda>row (A, b). if A ! row ! c
             then (xor_row n c row A, b[row := (b ! row) \<noteq> (b ! c)]) else (A, b)"
  let ?I = "\<lambda>m Bb. dims (fst Bb) n n \<and> length (snd Bb) = n \<and>
     (\<forall>i<n. \<forall>k<n. fst Bb ! i ! k =
         (if c < i \<and> i < m \<and> A ! i ! c \<and> c \<le> k then A ! i ! k \<noteq> A ! c ! k else A ! i ! k)) \<and>
     (\<forall>i<n. snd Bb ! i = (if c < i \<and> i < m \<and> A ! i ! c then b ! i \<noteq> b ! c else b ! i))"
  have "?I n (fold ?f [Suc c..<n] (A, b))"
  proof (rule fold_upt_rule [where I = ?I])
    show "?I (Suc c) (A, b)" using d by auto
  next
    fix m t assume m: "Suc c \<le> m" "m < n" and t: "?I m t"
    obtain B v where Bv: "t = (B, v)" by (cases t)
    from t Bv have dB: "dims B n n" and lv: "length v = n"
      and cB: "\<forall>i<n. \<forall>k<n. B ! i ! k =
         (if c < i \<and> i < m \<and> A ! i ! c \<and> c \<le> k then A ! i ! k \<noteq> A ! c ! k else A ! i ! k)"
      and cv: "\<forall>i<n. v ! i = (if c < i \<and> i < m \<and> A ! i ! c then b ! i \<noteq> b ! c else b ! i)"
      by simp_all
    have mc: "m \<noteq> c" using m by simp
    have Bm: "B ! m ! c = A ! m ! c" using cB m c by simp
    show "?I (Suc m) (?f m t)"
    proof (cases "A ! m ! c")
      case True
      from xor_row_cells [OF dB m(2) c mc]
      have x: "dims (xor_row n c m B) n n"
        "\<forall>i<n. \<forall>k<n. xor_row n c m B ! i ! k =
             (if i = m \<and> c \<le> k then B ! m ! k \<noteq> B ! c ! k else B ! i ! k)" by simp_all
      have "\<forall>i<n. \<forall>k<n. xor_row n c m B ! i ! k =
         (if c < i \<and> i < Suc m \<and> A ! i ! c \<and> c \<le> k then A ! i ! k \<noteq> A ! c ! k else A ! i ! k)"
        using x(2) cB m c True by (auto simp: less_Suc_eq)
      moreover have "\<forall>i<n. v[m := (v ! m) \<noteq> (v ! c)] ! i =
          (if c < i \<and> i < Suc m \<and> A ! i ! c then b ! i \<noteq> b ! c else b ! i)"
        using cv lv m c True by (auto simp: nth_list_update less_Suc_eq)
      ultimately show ?thesis using Bv Bm True x(1) lv by simp
    next
      case False
      then show ?thesis using Bv Bm t m by (auto simp: less_Suc_eq)
    qed
  next
    show "Suc c \<le> n" using c by simp
  qed
  then show ?thesis by (cases "fold ?f [Suc c..<n] (A, b)") (simp add: eliminate_below_def)
qed

lemma swap_rows_cells:
  assumes d: "dims A n n" "length b = n" and c: "c < n" "p < n"
  shows "\<exists>A' b'. swap_rows (A, b) c p = (A', b') \<and> dims A' n n \<and> length b' = n \<and>
           (\<forall>i<n. A' ! i = A ! tr c p i \<and> b' ! i = b ! tr c p i)"
  using assms by (auto simp: swap_rows_def dims_def tr_def nth_list_update)

lemma tr_less: "c < n \<Longrightarrow> p < n \<Longrightarrow> i < n \<Longrightarrow> tr c p i < n"
  by (simp add: tr_def)

lemma tr_c [simp]: "tr c p c = p"
  by (simp add: tr_def)

lemma eliminate_col_cells:
  assumes d: "dims A n n" "length b = n" and c: "c < n"
  shows "\<exists>A' b'. eliminate_col n c (A, b) = (A', b') \<and> dims A' n n \<and> length b' = n \<and>
           (find_pivot n A c c = n \<longrightarrow> A' = A \<and> b' = b) \<and>
           (find_pivot n A c c < n \<longrightarrow> pivot_step n c (find_pivot n A c c) (A, b) (A', b'))"
proof (cases "find_pivot n A c c = n")
  case True
  then show ?thesis using d by (simp add: eliminate_col_def)
next
  case False
  let ?p = "find_pivot n A c c"
  from find_pivot_from [of c n A c] c False have p: "?p < n" by simp
  from swap_rows_cells [OF d c p] obtain S v where
    S: "swap_rows (A, b) c ?p = (S, v)" "dims S n n" "length v = n"
      "\<forall>i<n. S ! i = A ! tr c ?p i \<and> v ! i = b ! tr c ?p i" by blast
  from eliminate_below_cells [OF S(2,3) c] obtain A' b' where
    E: "eliminate_below n c (S, v) = (A', b')" "dims A' n n" "length b' = n"
      "\<forall>i<n. \<forall>k<n. A' ! i ! k =
          (if c < i \<and> S ! i ! c \<and> c \<le> k then S ! i ! k \<noteq> S ! c ! k else S ! i ! k)"
      "\<forall>i<n. b' ! i = (if c < i \<and> S ! i ! c then v ! i \<noteq> v ! c else v ! i)" by blast
  have "pivot_step n c ?p (A, b) (A', b')"
    using E(4,5) S(4) c by (simp add: pivot_step_def)
  moreover have "eliminate_col n c (A, b) = (A', b')"
    using False S(1) E(1) by (simp add: eliminate_col_def)
  ultimately show ?thesis using E(2,3) p by simp
qed

text \<open>
  Claim C6. In an iteration for column \<open>c\<close> of the elimination loop, on a square system,
  the pivot found is the smallest row index \<open>p \<ge> c\<close> with \<open>A[p][c]\<close> true, and \<open>n\<close> when there
  is none (the iteration then changes nothing). When there is one, rows \<open>p\<close> and \<open>c\<close> of
  \<open>A\<close> are exchanged and so are \<open>b[p]\<close> and \<open>b[c]\<close>, every other row and entry staying in
  place, so that each row keeps its own right-hand side; the iteration then continues
  with the elimination below the pivot on the exchanged system.
\<close>

theorem pivot_search_and_swap:
  assumes "dims A n n" "length b = n" "c < n"
  shows "let p = find_pivot n A c c in
           c \<le> p \<and> p \<le> n \<and> (p < n \<longrightarrow> A ! p ! c) \<and> (\<forall>i. c \<le> i \<and> i < p \<longrightarrow> \<not> A ! i ! c) \<and>
           (p = n \<longrightarrow> eliminate_col n c (A, b) = (A, b)) \<and>
           (p < n \<longrightarrow>
              (\<exists>A' b'. swap_rows (A, b) c p = (A', b') \<and>
                 (\<forall>i<n. A' ! i = A ! tr c p i \<and> b' ! i = b ! tr c p i) \<and>
                 eliminate_col n c (A, b) = eliminate_below n c (A', b')))"
proof -
  let ?p = "find_pivot n A c c"
  from find_pivot_from [of c n A c]
  have fp: "c \<le> ?p" "?p \<le> n" "?p < n \<longrightarrow> A ! ?p ! c" "\<forall>i. c \<le> i \<and> i < ?p \<longrightarrow> \<not> A ! i ! c"
    using assms(3) by simp_all
  have none: "?p = n \<longrightarrow> eliminate_col n c (A, b) = (A, b)"
    by (simp add: eliminate_col_def)
  have some: "\<exists>A' b'. swap_rows (A, b) c ?p = (A', b') \<and>
                 (\<forall>i<n. A' ! i = A ! tr c ?p i \<and> b' ! i = b ! tr c ?p i) \<and>
                 eliminate_col n c (A, b) = eliminate_below n c (A', b')" if p: "?p < n"
  proof -
    from swap_rows_cells [OF assms p] obtain S v where
      S: "swap_rows (A, b) c ?p = (S, v)"
        "\<forall>i<n. S ! i = A ! tr c ?p i \<and> v ! i = b ! tr c ?p i" by blast
    moreover have "eliminate_col n c (A, b) = eliminate_below n c (S, v)"
      using p S(1) by (simp add: eliminate_col_def)
    ultimately show ?thesis by blast
  qed
  from fp none some show ?thesis by (simp add: Let_def)
qed

theorem pivot_search_and_swap_witness:
  "let p = find_pivot 3 [[False, True, True], [False, False, True], [True, False, True]] 0 0 in
     p = 2 \<and>
     swap_rows ([[False, True, True], [False, False, True], [True, False, True]], [True, False, False]) 0 p
       = ([[True, False, True], [False, False, True], [False, True, True]], [False, False, True]) \<and>
     eliminate_col 3 0 ([[False, True, True], [False, False, True], [True, False, True]], [True, False, False])
       = eliminate_below 3 0
           ([[True, False, True], [False, False, True], [False, True, True]], [False, False, True])"
proof -
  let ?A = "[[False, True, True], [False, False, True], [True, False, True]]"
  let ?b = "[True, False, False]"
  have p: "find_pivot 3 ?A 0 0 = 2" by code_simp
  have "dims ?A 3 3" by (simp add: dims_def less_Suc_eq numeral_3_eq_3)
  moreover have "length ?b = 3" "(0::nat) < 3" by simp_all
  ultimately have "let p = find_pivot 3 ?A 0 0 in
           0 \<le> p \<and> p \<le> 3 \<and> (p < 3 \<longrightarrow> ?A ! p ! 0) \<and> (\<forall>i. 0 \<le> i \<and> i < p \<longrightarrow> \<not> ?A ! i ! 0) \<and>
           (p = 3 \<longrightarrow> eliminate_col 3 0 (?A, ?b) = (?A, ?b)) \<and>
           (p < 3 \<longrightarrow>
              (\<exists>A' b'. swap_rows (?A, ?b) 0 p = (A', b') \<and>
                 (\<forall>i<3. A' ! i = ?A ! tr 0 p i \<and> b' ! i = ?b ! tr 0 p i) \<and>
                 eliminate_col 3 0 (?A, ?b) = eliminate_below 3 0 (A', b')))"
    by (rule pivot_search_and_swap)
  then show ?thesis
    unfolding p Let_def by (auto simp: swap_rows_def)
qed

lemma eliminate_col_cleared:
  assumes z: "cleared n m Ab" and m: "m < n"
  shows "cleared n (Suc m) (eliminate_col n m Ab)"
proof -
  obtain A b where Ab: "Ab = (A, b)" by (cases Ab)
  from z Ab have d: "dims A n n" "length b = n"
    and z0: "\<forall>r<n. \<forall>k<m. m \<le> r \<longrightarrow> \<not> A ! r ! k" by (simp_all add: cleared_def)
  let ?p = "find_pivot n A m m"
  from find_pivot_from [of m n A m] m
  have fp: "m \<le> ?p" "?p \<le> n" "?p < n \<longrightarrow> A ! ?p ! m" "\<forall>i. m \<le> i \<and> i < ?p \<longrightarrow> \<not> A ! i ! m"
    by simp_all
  from eliminate_col_cells [OF d m] obtain A' b' where
    E: "eliminate_col n m (A, b) = (A', b')" "dims A' n n" "length b' = n"
      "?p = n \<longrightarrow> A' = A \<and> b' = b"
      "?p < n \<longrightarrow> pivot_step n m ?p (A, b) (A', b')" by blast
  have "\<not> A' ! r ! k" if r: "r < n" "Suc m \<le> r" and k: "k < Suc m" for r k
  proof (cases "?p = n")
    case True
    with E(4) have "A' = A" by simp
    moreover have "\<not> A ! r ! k"
    proof (cases "k = m")
      case True
      then show ?thesis using fp(4) r \<open>?p = n\<close> by simp
    next
      case False
      then show ?thesis using z0 r k by simp
    qed
    ultimately show ?thesis by simp
  next
    case False
    with fp(2) have p: "?p < n" by simp
    with E(5) have ps: "pivot_step n m ?p (A, b) (A', b')" by simp
    have kn: "k < n" using k m by simp
    have t: "tr m ?p r < n" "m \<le> tr m ?p r" using r p m fp(1) by (auto simp: tr_def)
    have cell: "A' ! r ! k =
        (if A ! tr m ?p r ! m \<and> m \<le> k then A ! tr m ?p r ! k \<noteq> A ! ?p ! k else A ! tr m ?p r ! k)"
      using ps r kn by (simp add: pivot_step_def)
    show ?thesis
    proof (cases "k = m")
      case True
      then show ?thesis using cell fp(3) p by auto
    next
      case False
      then have "k < m" using k by simp
      then show ?thesis using cell z0 t by simp
    qed
  qed
  then show ?thesis using E(1,2,3) Ab by (simp add: cleared_def)
qed

lemma eliminate_prefix_cleared:
  assumes "dims A n n" "length b = n" "m \<le> n"
  shows "cleared n m (fold (eliminate_col n) [0..<m] (A, b))"
proof (rule fold_upt_rule [where I = "cleared n"])
  show "cleared n 0 (A, b)" using assms by (simp add: cleared_def)
next
  fix k t assume "k < m" "cleared n k t"
  then show "cleared n (Suc k) (eliminate_col n k t)"
    using assms(3) by (intro eliminate_col_cleared) simp_all
qed simp

text \<open>
  Claim C7. The state of the elimination loop after it has processed columns \<open>0, \<dots>, c\<close>
  has false in every column \<open>k \<le> c\<close> of every row \<open>r > c\<close>. This holds in the columns that
  found no pivot as well: such a column was already false from its own row downwards.
\<close>

theorem eliminated_columns_stay_false:
  assumes "dims A n n" "length b = n" "c < n"
  shows "eliminate n (A, b) =
           fold (eliminate_col n) [Suc c..<n] (fold (eliminate_col n) [0..<Suc c] (A, b)) \<and>
         (\<forall>r<n. \<forall>k\<le>c. c < r \<longrightarrow> \<not> fst (fold (eliminate_col n) [0..<Suc c] (A, b)) ! r ! k)"
proof
  have "[0..<n] = [0..<Suc c] @ [Suc c..<n]"
    using assms(3) by (metis Suc_leI le0 upt_add_eq_append le_add_diff_inverse)
  then show "eliminate n (A, b) =
      fold (eliminate_col n) [Suc c..<n] (fold (eliminate_col n) [0..<Suc c] (A, b))"
    by (simp add: eliminate_def)
next
  from assms(3) have "Suc c \<le> n" by simp
  from eliminate_prefix_cleared [OF assms(1,2) this]
  show "\<forall>r<n. \<forall>k\<le>c. c < r \<longrightarrow> \<not> fst (fold (eliminate_col n) [0..<Suc c] (A, b)) ! r ! k"
    by (auto simp: cleared_def less_Suc_eq_le)
qed

theorem eliminated_columns_stay_false_witness:
  "\<not> fst (fold (eliminate_col 3) [0..<Suc 1]
          ([[False, True, True], [False, False, True], [True, False, True]], [True, False, False])) ! 2 ! 0 \<and>
   \<not> fst (fold (eliminate_col 3) [0..<Suc 1]
          ([[False, True, True], [False, False, True], [True, False, True]], [True, False, False])) ! 2 ! 1"
proof -
  let ?A = "[[False, True, True], [False, False, True], [True, False, True]]"
  have "dims ?A 3 3" by (simp add: dims_def less_Suc_eq numeral_3_eq_3)
  moreover have "length [True, False, False] = 3" "(1::nat) < 3" by simp_all
  ultimately have "\<forall>r<3. \<forall>k\<le>1. 1 < r \<longrightarrow>
      \<not> fst (fold (eliminate_col 3) [0..<Suc 1] (?A, [True, False, False])) ! r ! k"
    by (rule eliminated_columns_stay_false [THEN conjunct2])
  then show ?thesis by simp
qed

section \<open>Linearity of the solver\<close>

lemma fold_rel3:
  assumes "R a b c"
    and "\<And>x a b c. x \<in> set xs \<Longrightarrow> R a b c \<Longrightarrow> R (f x a) (g x b) (h x c)"
  shows "R (fold f xs a) (fold g xs b) (fold h xs c)"
  using assms by (induction xs arbitrary: a b c) auto

lemma length_vxor [simp]: "length (vxor u v) = min (length u) (length v)"
  by (simp add: vxor_def)

lemma nth_vxor: "i < length u \<Longrightarrow> i < length v \<Longrightarrow> vxor u v ! i = (u ! i \<noteq> v ! i)"
  by (simp add: vxor_def)

lemma vxor_update:
  "(vxor u v)[i := (a \<noteq> b)] = vxor (u[i := a]) (v[i := b])"
  by (simp add: vxor_def zip_update map_update)

lemma xor4: "((a \<noteq> b) \<noteq> (c \<noteq> d)) = ((a \<noteq> c) \<noteq> (b \<noteq> (d::bool)))"
  by auto

lemma lin3_swap_rows:
  assumes "lin3 n s1 s2 s3" "c < n" "p < n"
  shows "lin3 n (swap_rows s1 c p) (swap_rows s2 c p) (swap_rows s3 c p)"
proof -
  obtain A b1 where s1: "s1 = (A, b1)" by (cases s1)
  obtain A2 b2 where s2: "s2 = (A2, b2)" by (cases s2)
  obtain A3 b3 where s3: "s3 = (A3, b3)" by (cases s3)
  from assms(1) s1 s2 s3 have e: "A2 = A" "A3 = A" "length b1 = n" "length b2 = n" "b3 = vxor b1 b2"
    by (simp_all add: lin3_def)
  have "vxor b1 b2 ! p = (b1 ! p \<noteq> b2 ! p)" "vxor b1 b2 ! c = (b1 ! c \<noteq> b2 ! c)"
    using e(3,4) assms(2,3) by (simp_all add: nth_vxor)
  then have "(vxor b1 b2)[c := vxor b1 b2 ! p, p := vxor b1 b2 ! c] =
        vxor (b1[c := b1 ! p, p := b1 ! c]) (b2[c := b2 ! p, p := b2 ! c])"
    by (simp only: vxor_update)
  then show ?thesis using e s1 s2 s3 by (simp add: lin3_def swap_rows_def)
qed

lemma lin3_eliminate_below:
  assumes "lin3 n s1 s2 s3" "c < n"
  shows "lin3 n (eliminate_below n c s1) (eliminate_below n c s2) (eliminate_below n c s3)"
  unfolding eliminate_below_def
proof (rule fold_rel3 [where R = "lin3 n"])
  show "lin3 n s1 s2 s3" by (rule assms(1))
next
  fix row t1 t2 t3
  assume row: "row \<in> set [Suc c..<n]" and l: "lin3 n t1 t2 t3"
  obtain A b1 where t1: "t1 = (A, b1)" by (cases t1)
  obtain A2 b2 where t2: "t2 = (A2, b2)" by (cases t2)
  obtain A3 b3 where t3: "t3 = (A3, b3)" by (cases t3)
  from l t1 t2 t3 have e: "A2 = A" "A3 = A" "length b1 = n" "length b2 = n" "b3 = vxor b1 b2"
    by (simp_all add: lin3_def)
  from row have r: "row < n" by simp
  have "vxor b1 b2 ! row = (b1 ! row \<noteq> b2 ! row)" "vxor b1 b2 ! c = (b1 ! c \<noteq> b2 ! c)"
    using e(3,4) r assms(2) by (simp_all add: nth_vxor)
  then have "((vxor b1 b2 ! row) \<noteq> (vxor b1 b2 ! c)) =
             ((b1 ! row \<noteq> b1 ! c) \<noteq> (b2 ! row \<noteq> b2 ! c))"
    by (simp only: xor4 [of "b1 ! row" "b2 ! row" "b1 ! c" "b2 ! c"])
  then have "(vxor b1 b2)[row := (vxor b1 b2 ! row) \<noteq> (vxor b1 b2 ! c)] =
        vxor (b1[row := (b1 ! row) \<noteq> (b1 ! c)]) (b2[row := (b2 ! row) \<noteq> (b2 ! c)])"
    by (simp only: vxor_update)
  then show "lin3 n
     ((\<lambda>(A, b). if A ! row ! c then (xor_row n c row A, b[row := (b ! row) \<noteq> (b ! c)]) else (A, b)) t1)
     ((\<lambda>(A, b). if A ! row ! c then (xor_row n c row A, b[row := (b ! row) \<noteq> (b ! c)]) else (A, b)) t2)
     ((\<lambda>(A, b). if A ! row ! c then (xor_row n c row A, b[row := (b ! row) \<noteq> (b ! c)]) else (A, b)) t3)"
    using e t1 t2 t3 by (simp add: lin3_def)
qed

lemma lin3_eliminate_col:
  assumes "lin3 n s1 s2 s3" "c < n"
  shows "lin3 n (eliminate_col n c s1) (eliminate_col n c s2) (eliminate_col n c s3)"
proof -
  from assms(1) have f: "fst s2 = fst s1" "fst s3 = fst s1" by (simp_all add: lin3_def)
  let ?p = "find_pivot n (fst s1) c c"
  show ?thesis
  proof (cases "?p = n")
    case True
    then show ?thesis using assms(1) f by (simp add: eliminate_col_def)
  next
    case False
    with find_pivot_from [of c n "fst s1" c] assms(2) have "?p < n" by simp
    from lin3_eliminate_below [OF lin3_swap_rows [OF assms(1,2) this] assms(2)] False f
    show ?thesis by (simp add: eliminate_col_def)
  qed
qed

lemma lin3_eliminate:
  assumes "lin3 n s1 s2 s3"
  shows "lin3 n (eliminate n s1) (eliminate n s2) (eliminate n s3)"
  unfolding eliminate_def
  by (rule fold_rel3 [where R = "lin3 n"]) (use assms lin3_eliminate_col in auto)

lemma back_rows_less: "row \<in> set (back_rows n) \<Longrightarrow> row < n"
  by (auto simp: back_rows_def split: if_splits)

lemma for_each_pure:
  "(\<And>i t. i \<in> set xs \<Longrightarrow> body i t = Inr (f i t)) \<Longrightarrow> for_each xs body s = Inr (fold f xs s)"
  by (induction xs arbitrary: s) simp_all

lemma back_row_value:
  "row < 2147483647 \<Longrightarrow>
   back_row n A b row xr =
     Inr (xr[row := fold (\<lambda>col sum. sum \<noteq> (A ! row ! col \<and> xr ! col)) [Suc row..<n] (b ! row)])"
  by (simp add: back_row_def int_succ_def)

lemma back_substitute_values:
  assumes "n \<noteq> 2147483648"
  shows "back_substitute n Ab = Inr (back_values n Ab)"
proof -
  obtain A b where Ab: "Ab = (A, b)" by (cases Ab)
  let ?step = "\<lambda>row xr. xr[row := fold (\<lambda>col sum. sum \<noteq> (A ! row ! col \<and> xr ! col))
                                        [Suc row..<n] (b ! row)]"
  have "for_each (back_rows n) (back_row n A b) (replicate n False) =
          Inr (fold ?step (back_rows n) (replicate n False))"
  proof (rule for_each_pure)
    fix i t assume "i \<in> set (back_rows n)"
    then have "i < n" "n \<le> 2147483648" by (auto simp: back_rows_def split: if_splits)
    with assms have "i < 2147483647" by simp
    then show "back_row n A b i t = Inr (?step i t)" by (rule back_row_value)
  qed
  then show ?thesis by (simp add: Ab back_substitute_def back_values_def)
qed

lemma back_substitute_first_row:
  assumes "Suc m \<le> 2147483648"
  shows "back_substitute (Suc m) (A, b) =
           (case back_row (Suc m) A b m (replicate (Suc m) False) of Inl e \<Rightarrow> Inl e
            | Inr t \<Rightarrow> for_each (rev [0..<m]) (back_row (Suc m) A b) t)"
  using assms by (simp add: back_substitute_def back_rows_def)

lemma back_substitute_overflow: "back_substitute 2147483648 Ab = Inl IntOverflow"
proof -
  obtain A b where Ab: "Ab = (A, b)" by (cases Ab)
  define m :: nat where "m = 2147483647"
  have n: "(2147483648::nat) = Suc m" by (simp add: m_def)
  have "back_row (Suc m) A b m (replicate (Suc m) False) = Inl IntOverflow"
    by (simp add: back_row_def int_succ_def m_def)
  moreover have "Suc m \<le> 2147483648" by (simp add: m_def)
  ultimately have "back_substitute (Suc m) (A, b) = Inl IntOverflow"
    by (simp only: back_substitute_first_row sum.case)
  then show ?thesis unfolding Ab n .
qed

lemma lin3_back_values:
  assumes "lin3 n s1 s2 s3"
  shows "back_values n s3 = vxor (back_values n s1) (back_values n s2)"
proof -
  obtain A b1 where s1: "s1 = (A, b1)" by (cases s1)
  obtain A2 b2 where s2: "s2 = (A2, b2)" by (cases s2)
  obtain A3 b3 where s3: "s3 = (A3, b3)" by (cases s3)
  from assms s1 s2 s3 have e: "A2 = A" "A3 = A" "length b1 = n" "length b2 = n" "b3 = vxor b1 b2"
    by (simp_all add: lin3_def)
  let ?inner = "\<lambda>b row xr. fold (\<lambda>col sum. sum \<noteq> (A ! row ! col \<and> xr ! col)) [Suc row..<n] (b ! row)"
  let ?step = "\<lambda>b row xr. xr[row := ?inner b row xr]"
  let ?R = "\<lambda>x1 x2 x3. length x1 = n \<and> length x2 = n \<and> x3 = vxor x1 x2"
  have "?R (fold (?step b1) (back_rows n) (replicate n False))
           (fold (?step b2) (back_rows n) (replicate n False))
           (fold (?step (vxor b1 b2)) (back_rows n) (replicate n False))"
  proof (rule fold_rel3 [where R = ?R])
    show "?R (replicate n False) (replicate n False) (replicate n False)"
      by (auto simp: vxor_def intro: nth_equalityI)
  next
    fix row x1 x2 x3 assume row: "row \<in> set (back_rows n)" and R: "?R x1 x2 x3"
    from row have r: "row < n" by (rule back_rows_less)
    from R have lx: "length x1 = n" "length x2 = n" and x3: "x3 = vxor x1 x2" by simp_all
    have "?inner (vxor b1 b2) row (vxor x1 x2) = (?inner b1 row x1 \<noteq> ?inner b2 row x2)"
    proof (rule fold_rel3 [where R = "\<lambda>u v w. w = (u \<noteq> v)"])
      show "vxor b1 b2 ! row = (b1 ! row \<noteq> b2 ! row)" using e(3,4) r by (simp add: nth_vxor)
    next
      fix col and u v w :: bool
      assume "col \<in> set [Suc row..<n]" and "w = (u \<noteq> v)"
      then show "(w \<noteq> (A ! row ! col \<and> vxor x1 x2 ! col)) =
                 ((u \<noteq> (A ! row ! col \<and> x1 ! col)) \<noteq> (v \<noteq> (A ! row ! col \<and> x2 ! col)))"
        using lx by (auto simp: nth_vxor)
    qed
    then have "?step (vxor b1 b2) row x3 = vxor (?step b1 row x1) (?step b2 row x2)"
      unfolding x3 by (simp only: vxor_update)
    then show "?R (?step b1 row x1) (?step b2 row x2) (?step (vxor b1 b2) row x3)"
      using lx by simp
  qed
  then show ?thesis using e s1 s2 s3 by (simp add: back_values_def)
qed

text \<open>
  Claim C8. For a fixed matrix, elimination followed by back substitution is linear in the
  right-hand side: the solution computed for the cell-wise exclusive or of \<open>b1\<close> and \<open>b2\<close> is
  the exclusive or of the solutions computed for \<open>b1\<close> and for \<open>b2\<close>. This holds for every
  matrix and every size at which back substitution computes a solution, which is every
  size but \<open>2 ^ 31\<close>; there the first \<open>row + 1\<close> overflows for all three right-hand sides.
\<close>

theorem solution_is_linear_in_rhs:
  assumes "length b1 = n" "length b2 = n"
  shows "if n = 2147483648
         then back_substitute n (eliminate n (A, b1)) = Inl IntOverflow \<and>
              back_substitute n (eliminate n (A, b2)) = Inl IntOverflow \<and>
              back_substitute n (eliminate n (A, vxor b1 b2)) = Inl IntOverflow
         else \<exists>x1 x2. back_substitute n (eliminate n (A, b1)) = Inr x1 \<and>
                back_substitute n (eliminate n (A, b2)) = Inr x2 \<and>
                back_substitute n (eliminate n (A, vxor b1 b2)) = Inr (vxor x1 x2)"
proof (cases "n = 2147483648")
  case True
  then show ?thesis by (simp add: back_substitute_overflow)
next
  case False
  have "lin3 n (A, b1) (A, b2) (A, vxor b1 b2)" using assms by (simp add: lin3_def)
  then have "lin3 n (eliminate n (A, b1)) (eliminate n (A, b2)) (eliminate n (A, vxor b1 b2))"
    by (rule lin3_eliminate)
  then have "back_values n (eliminate n (A, vxor b1 b2)) =
      vxor (back_values n (eliminate n (A, b1))) (back_values n (eliminate n (A, b2)))"
    by (rule lin3_back_values)
  with False show ?thesis by (simp add: back_substitute_values)
qed

theorem solution_is_linear_in_rhs_witness:
  "\<exists>x1 x2.
     back_substitute 2 (eliminate 2 ([[True, True], [False, True]], [True, False])) = Inr x1 \<and>
     back_substitute 2 (eliminate 2 ([[True, True], [False, True]], [True, True])) = Inr x2 \<and>
     back_substitute 2 (eliminate 2 ([[True, True], [False, True]], vxor [True, False] [True, True])) =
       Inr (vxor x1 x2)"
  using solution_is_linear_in_rhs [of "[True, False]" 2 "[True, True]" "[[True, True], [False, True]]"]
  by simp

section \<open>Degenerate sizes and the command line\<close>

lemma isLocked_empty: "ySize s = 0 \<or> xSize s = 0 \<Longrightarrow> \<not> isLocked s"
  by (auto simp: isLocked_def list_ex_iff)

lemma for_each_skip:
  "(\<And>i t. i \<in> set xs \<Longrightarrow> body i t = Inr t) \<Longrightarrow> for_each xs body s = Inr s"
  by (induction xs) simp_all

lemma solve_box_degenerate:
  assumes "y = 0 \<or> x = 0"
  shows "solve_box y x bx = Inr bx"
proof -
  have n: "u32 (y * x) = 0" using assms by (auto simp: u32_def)
  have "for_each [0..<y] (\<lambda>row. for_each [0..<x] (\<lambda>col. build_cell bx y x row col)) ([], [])
          = Inr ([], [])"
  proof (cases "y = 0")
    case True
    then show ?thesis by simp
  next
    case False
    with assms have "x = 0" by simp
    then show ?thesis by (intro for_each_skip) simp
  qed
  then have "build_system bx y x 0 = Inr ([], [])" by (simp add: build_system_def)
  then show ?thesis
    by (simp add: solve_box_def n apply_toggles_def back_substitute_def back_rows_def)
qed

text \<open>
  What does hold for a size of zero: when the first value of the generator asks for no
  round of scrambling, nothing is divided and \<open>openBox\<close> reports the empty box as open.
\<close>

lemma openBox_degenerate_without_scramble:
  assumes "y = 0 \<or> x = 0" "rng 0 mod 1000 = 0"
  shows "openBox y x rng = Inr False"
proof -
  let ?bx = "\<lparr>box = replicate (unat y) (replicate (unat x) False), ySize = unat y, xSize = unat x\<rparr>"
  have new: "SecureBox_new (unat y) (unat x) rng = Inr ?bx"
    using assms(2) by (simp add: SecureBox_new_def shuffle_def)
  have z: "unat y = 0 \<or> unat x = 0" using assms(1) by auto
  have "solve_box (unat y) (unat x) ?bx = Inr ?bx" using z by (rule solve_box_degenerate)
  moreover have "\<not> isLocked ?bx" using z by (intro isLocked_empty) simp
  ultimately show ?thesis using new by (simp add: openBox_def)
qed

text \<open>
  Claim C3 (fails on the code). With \<open>y = 0\<close> and a generator whose first value asks for one
  round of scrambling, the constructor's \<open>shuffle\<close> reduces a random value modulo
  \<open>ySize = 0\<close> before \<open>openBox\<close> has built anything: the call ends in a division by zero
  instead of returning false.
\<close>

theorem openBox_zero_rows_divides_by_zero:
  "openBox 0 3 Suc = Inl DivisionByZero"
  by (simp add: openBox_def SecureBox_new_def shuffle_def)

text \<open>
  Claim C4 as the code has it. \<open>main\<close> validates nothing: whenever two arguments are present
  and each converts within \<open>long\<close>, the two converted values, whatever they are, are the
  dimensions \<open>openBox\<close> is called with, and what \<open>main\<close> prints and returns is the outcome of
  that call.
\<close>

theorem main_passes_arguments_unchecked:
  assumes "2 < length argv" "atol (argv ! 1) = Inr v1" "atol (argv ! 2) = Inr v2"
  shows "main_dims argv = Inr (word_of_int v1, word_of_int v2) \<and>
         main argv rng =
           (case openBox (word_of_int v1) (word_of_int v2) rng of
              Inl e \<Rightarrow> Inl e | Inr state \<Rightarrow> Inr (report state))"
  using assms by (simp add: main_def main_dims_def arg_def)

theorem main_passes_arguments_unchecked_witness:
  "main_dims [''SecureBox'', ''0'', ''abc''] = Inr (word_of_int 0, word_of_int 0) \<and>
   main [''SecureBox'', ''0'', ''abc''] id =
     (case openBox (word_of_int 0) (word_of_int 0) id of
        Inl e \<Rightarrow> Inl e | Inr state \<Rightarrow> Inr (report state))"
proof -
  have "2 < length [''SecureBox'', ''0'', ''abc'']" by simp
  moreover have "atol ([''SecureBox'', ''0'', ''abc''] ! 1) = Inr 0"
    by (simp add: atol_def is_space_def is_digit_def)
  moreover have "atol ([''SecureBox'', ''0'', ''abc''] ! 2) = Inr 0"
    by (simp add: atol_def is_space_def is_digit_def)
  ultimately show ?thesis by (rule main_passes_arguments_unchecked)
qed

text \<open>
  Claim C4 as stated fails: with a zero and a non-numeric argument nothing is rejected.
  Both convert to 0, \<open>openBox(0, 0)\<close> is called, and (with a generator that asks for no
  scrambling) the program prints that the box is open and exits with status 0.
\<close>

theorem main_accepts_zero_and_text:
  "main_dims [''SecureBox'', ''0'', ''abc''] = Inr (0, 0) \<and>
   main [''SecureBox'', ''0'', ''abc''] id = Inr (''BOX: OPENED!'', 0)"
proof -
  have d: "main_dims [''SecureBox'', ''0'', ''abc''] = Inr (0, 0)"
    by (simp add: main_dims_def arg_def atol_def is_space_def is_digit_def)
  have "openBox 0 0 id = Inr False"
    by (rule openBox_degenerate_without_scramble) simp_all
  with d show ?thesis by (simp add: main_def report_def)
qed

section \<open>Elimination of a symmetric system over the two-element field\<close>

lemma gf2_cases: "(x::gf2) = 0 \<or> x = 1"
proof -
  have "unat x < 2" using unsigned_less [of x, where ?'a = nat] by simp
  then have "unat x = 0 \<or> unat x = 1" by auto
  then show ?thesis by (auto simp: word_unat_eq_iff)
qed

lemma gf2_double [simp]: "(x::gf2) + x = 0"
  using gf2_cases [of x] by (auto simp del: mult_2 simp: mult_2 [symmetric])

lemma gf2_two [simp]: "(2::gf2) * x = 0"
  using gf2_double [of x] by (simp only: mult_2)

lemma gf2_cancel [simp]: "(x::gf2) + (x + y) = y"
  by (simp add: add.assoc [symmetric] del: gf2_two)

lemma gf2_neg [simp]: "- (x::gf2) = x"
  by (simp add: minus_unique)

lemma gf2_minus [simp]: "(x::gf2) - y = x + y"
  using gf2_neg [of y] by (metis diff_conv_add_uminus)

lemma of_bool_xor: "(of_bool (a \<noteq> b) :: gf2) = of_bool a + of_bool b"
  by (cases a; cases b) simp_all

lemma of_bool_and: "(of_bool (a \<and> b) :: gf2) = of_bool a * of_bool b"
  by (cases a; cases b) simp_all

lemma gf2_one_neq_zero: "(1::gf2) \<noteq> 0" by simp

lemma gf2_add_eq_0: "((x::gf2) + y = 0) = (x = y)"
  using gf2_cases [of x] gf2_cases [of y] by auto

lemma gf2_neq_0: "((x::gf2) \<noteq> 0) = (x = 1)"
  using gf2_cases [of x] by auto

lemma tr_p [simp]: "tr c p p = c"
  by (simp add: tr_def)

lemma tr_other: "i \<noteq> c \<Longrightarrow> i \<noteq> p \<Longrightarrow> tr c p i = i"
  by (simp add: tr_def)

lemma dot_cong: "(\<And>j. j < n \<Longrightarrow> r j = r' j) \<Longrightarrow> (\<And>j. j < n \<Longrightarrow> d j = d' j) \<Longrightarrow> dot n r d = dot n r' d'"
  by (simp add: dot_def)

lemma dot_add_right: "dot n r (\<lambda>j. d j + e j) = dot n r d + dot n r e"
  by (simp add: dot_def distrib_left sum.distrib)

lemma dot_add_left: "dot n (\<lambda>k. a k + s * b k) d = dot n a d + s * dot n b d"
  by (simp add: dot_def distrib_right sum.distrib sum_distrib_left mult.assoc)

lemma sum_unitv: "c < n \<Longrightarrow> (\<Sum>j<n. f j * unitv c j) = f c"
proof -
  assume c: "c < n"
  have "(\<Sum>j<n. f j * unitv c j) = (\<Sum>j<n. if j = c then f j else 0)"
    by (intro sum.cong) (auto simp: unitv_def)
  also have "\<dots> = f c" using c by simp
  finally show ?thesis .
qed

lemma dot_unitv: "c < n \<Longrightarrow> dot n r (unitv c) = r c"
  by (simp add: dot_def sum_unitv)

lemma dot_update: "c < n \<Longrightarrow> dot n r (d(c := v)) = dot n r d + r c * (v + d c)"
proof -
  assume c: "c < n"
  have "dot n r (d(c := v)) = dot n r (\<lambda>j. d j + (v + d c) * unitv c j)"
    by (rule dot_cong) (auto simp: unitv_def add.assoc [symmetric])
  also have "\<dots> = dot n r d + (\<Sum>j<n. r j * ((v + d c) * unitv c j))"
    by (simp add: dot_def distrib_left sum.distrib)
  also have "(\<Sum>j<n. r j * ((v + d c) * unitv c j)) = (\<Sum>j<n. (r j * (v + d c)) * unitv c j)"
    by (simp add: mult.assoc)
  also have "\<dots> = r c * (v + d c)"
    using c by (rule sum_unitv)
  finally show ?thesis .
qed

lemma ext_kills_pivot:
  assumes "c < n" "r c = 1"
  shows "dot n r (ext n c r d) = 0"
  using assms by (simp add: ext_def dot_update)

lemma ext_update: 
  assumes "c < n" "r c = 1"
  shows "ext n c r (d(c := w)) = ext n c r d"
  using assms by (simp add: ext_def dot_update fun_eq_iff add.assoc add.left_commute)

lemma ext_same:
  assumes "dot n r u = 0"
  shows "ext n c r u = u"
  using assms by (simp add: ext_def)

lemma ext_other: "j \<noteq> c \<Longrightarrow> ext n c r d j = d j"
  by (simp add: ext_def)

lemma pstep_dot:
  assumes "pstep n c p M M'" "c < n" "c < i" "i < n"
  shows "dot n (M' i) d = dot n (M (tr c p i)) (ext n c (M p) d)"
proof -
  have "dot n (M' i) d = dot n (\<lambda>k. M (tr c p i) k + M (tr c p i) c * M p k) d"
    using assms by (intro dot_cong) (simp_all add: pstep_def)
  also have "\<dots> = dot n (M (tr c p i)) d + M (tr c p i) c * dot n (M p) d"
    by (rule dot_add_left)
  also have "\<dots> = dot n (M (tr c p i)) (ext n c (M p) d)"
    using assms(2) by (simp add: ext_def dot_update)
  finally show ?thesis .
qed

lemma inj_on_pendingD:
  assumes "inj_on_pending n M D"
    and "\<And>j. u j \<noteq> 0 \<Longrightarrow> j \<in> D \<and> j \<le> m"
    and "\<And>q. q \<in> D \<Longrightarrow> q \<le> m \<Longrightarrow> dot n (M q) u = 0"
  shows "u j = 0"
proof -
  note r = assms(1) [unfolded inj_on_pending_def, rule_format, where u = u and m = m and j = j]
  show ?thesis by (rule r) (use assms(2,3) in simp_all)
qed

lemma has_epsD:
  assumes "has_eps n c M D" "c \<le> m" "m < n" "m \<notin> D"
  shows "\<exists>u. u m = 1 \<and> (\<forall>j. u j \<noteq> 0 \<longrightarrow> j = m \<or> (j \<in> D \<and> j < m)) \<and> kills n M D u"
  using assms(1) [unfolded has_eps_def, rule_format, where m = m] assms(2,3,4) by simp

lemma sum_delta_range:
  assumes "c \<le> (p::nat)" "p < n"
  shows "(\<Sum>i\<in>{c..<n}. if i = p then f i else (0::gf2)) = f p"
  using assms by (simp add: sum.delta)

lemma inv_pending_zero_column:
  assumes "elim_inv n c M D" "c < n" "c \<notin> D" "q \<in> D"
  shows "M q c = 0"
proof -
  from assms(1) have D: "D \<subseteq> {c..<n}" and eps: "has_eps n c M D" by (simp_all add: elim_inv_def)
  from has_epsD [OF eps le_refl assms(2,3)] obtain u where
    u: "u c = 1" "\<forall>j. u j \<noteq> 0 \<longrightarrow> j = c \<or> (j \<in> D \<and> j < c)" "kills n M D u"
    by blast
  have "u j = unitv c j" for j
  proof (cases "j = c")
    case True
    then show ?thesis using u(1) by (simp add: unitv_def)
  next
    case False
    have "\<not> (j \<in> D \<and> j < c)" using D by auto
    with u(2) False have "u j = 0" by blast
    then show ?thesis using False by (simp add: unitv_def)
  qed
  then have "dot n (M q) u = dot n (M q) (unitv c)" by (intro dot_cong) simp_all
  also have "\<dots> = M q c" using assms(2) by (rule dot_unitv)
  finally show ?thesis using u(3) assms(4) by (simp add: kills_def)
qed

lemma inv_pending_diagonal:
  assumes "elim_inv n c M D" "c < n" "c \<in> D"
  shows "M c c = 1"
proof (rule ccontr)
  assume "M c c \<noteq> 1"
  then have z: "M c c = 0" using gf2_cases [of "M c c"] by simp
  from assms(1) have D: "D \<subseteq> {c..<n}" and inj: "inj_on_pending n M D" by (simp_all add: elim_inv_def)
  have 1: "\<forall>j. unitv c j \<noteq> 0 \<longrightarrow> j \<in> D \<and> j \<le> c" using assms(3) by (simp add: unitv_def)
  have 2: "\<forall>q\<in>D. q \<le> c \<longrightarrow> dot n (M q) (unitv c) = 0"
  proof (intro ballI impI)
    fix q assume "q \<in> D" "q \<le> c"
    with D have "q = c" by auto
    then show "dot n (M q) (unitv c) = 0" using z assms(2) by (simp add: dot_unitv)
  qed
  from 1 2 have "unitv c c = 0"
    by (intro inj_on_pendingD [OF inj, where m = c and u = "unitv c" and j = c]) blast+
  then show False by (simp add: unitv_def)
qed

lemma unitv_kills:
  assumes "elim_inv n c M D" "c < n" "c \<notin> D"
  shows "kills n M D (unitv c)"
  unfolding kills_def
proof
  fix q assume "q \<in> D"
  then have "M q c = 0" using assms by (intro inv_pending_zero_column)
  then show "dot n (M q) (unitv c) = 0" using assms(2) by (simp add: dot_unitv)
qed

lemma form_unitv_left:
  assumes "c \<le> p" "p < n"
  shows "form n c M (unitv p) v = dot n (M p) v"
proof -
  have "form n c M (unitv p) v = (\<Sum>i\<in>{c..<n}. if i = p then dot n (M i) v else 0)"
    unfolding form_def by (intro sum.cong) (auto simp: unitv_def)
  also have "\<dots> = dot n (M p) v" using assms by (rule sum_delta_range)
  finally show ?thesis .
qed

lemma form_unitv_right:
  assumes "p < n"
  shows "form n c M v (unitv p) = (\<Sum>i\<in>{c..<n}. v i * M i p)"
  using assms by (simp add: form_def dot_unitv)

lemma inv_row_by_column:
  assumes "elim_inv n c M D" "c < n" "c \<notin> D" "kills n M D v"
  shows "dot n (M c) v = (\<Sum>i\<in>{c..<n}. v i * M i c)"
proof -
  from assms(1) have "sym_form n c M D" by (simp add: elim_inv_def)
  with unitv_kills [OF assms(1,2,3)] assms(4)
  have "form n c M (unitv c) v = form n c M v (unitv c)" by (simp add: sym_form_def)
  then show ?thesis using assms(2) by (simp add: form_unitv_left form_unitv_right)
qed

lemma column_sum_single:
  fixes u :: "nat \<Rightarrow> gf2" and M :: "nat \<Rightarrow> nat \<Rightarrow> gf2"
  assumes "u m = 1" "\<forall>j. u j \<noteq> 0 \<longrightarrow> j = m \<or> j \<in> D" "\<forall>q\<in>D. M q c = 0" "c \<le> m" "m < n"
  shows "(\<Sum>i\<in>{c..<n}. u i * M i c) = M m c"
proof -
  have "(\<Sum>i\<in>{c..<n}. u i * M i c) = (\<Sum>i\<in>{c..<n}. if i = m then M i c else 0)"
  proof (intro sum.cong refl)
    fix i
    show "u i * M i c = (if i = m then M i c else 0)"
    proof (cases "i = m")
      case True
      then show ?thesis using assms(1) by simp
    next
      case False
      show ?thesis
      proof (cases "u i = 0")
        case True
        then show ?thesis using False by simp
      next
        case nz: False
        with assms(2) False have "i \<in> D" by blast
        with assms(3) show ?thesis using False by simp
      qed
    qed
  qed
  also have "\<dots> = M m c" using assms(4,5) by (rule sum_delta_range)
  finally show ?thesis .
qed

lemma inv_free_step:
  assumes I: "elim_inv n c M D" and c: "c < n"
    and free: "\<forall>i. c \<le> i \<and> i < n \<longrightarrow> M i c = 0"
  shows "elim_inv n (Suc c) M D"
proof -
  from I have D: "D \<subseteq> {c..<n}" and zl: "zero_left n c M" and sym: "sym_form n c M D"
    and inj: "inj_on_pending n M D" and eps: "has_eps n c M D" by (simp_all add: elim_inv_def)
  have cD: "c \<notin> D"
  proof
    assume "c \<in> D"
    from inv_pending_diagonal [OF I c this] free c show False by simp
  qed
  have D': "D \<subseteq> {Suc c..<n}"
  proof
    fix x assume x: "x \<in> D"
    with D have "c \<le> x" "x < n" by auto
    moreover have "x \<noteq> c" using x cD by auto
    ultimately show "x \<in> {Suc c..<n}" by simp
  qed
  have zl': "zero_left n (Suc c) M"
    unfolding zero_left_def
  proof (intro allI impI)
    fix i k assume a: "Suc c \<le> i \<and> i < n \<and> k < Suc c"
    show "M i k = 0"
    proof (cases "k = c")
      case True
      then show ?thesis using free a by simp
    next
      case False
      then show ?thesis using zl a by (simp add: zero_left_def)
    qed
  qed
  have drop: "dot n (M i) (d(c := 0)) = dot n (M i) d" if "c \<le> i" "i < n" for i d
    using that free c by (simp add: dot_update)
  have kdrop: "kills n M D (d(c := 0))" if "kills n M D d" for d
    using that D drop unfolding kills_def by auto
  have fdrop: "form n c M (d(c := 0)) (d'(c := 0)) = form n (Suc c) M d d'" for d d'
  proof -
    have "form n c M (d(c := 0)) (d'(c := 0)) =
          (\<Sum>i\<in>{Suc c..<n}. (d(c := 0)) i * dot n (M i) (d'(c := 0)))"
      using c by (simp add: form_def sum.atLeast_Suc_lessThan)
    also have "\<dots> = (\<Sum>i\<in>{Suc c..<n}. d i * dot n (M i) d')"
      by (intro sum.cong refl) (simp add: drop)
    finally show ?thesis by (simp add: form_def)
  qed
  have sym': "sym_form n (Suc c) M D"
    unfolding sym_form_def
  proof (intro allI impI)
    fix d d' assume "kills n M D d" "kills n M D d'"
    then have "form n c M (d(c := 0)) (d'(c := 0)) = form n c M (d'(c := 0)) (d(c := 0))"
      using sym kdrop by (simp add: sym_form_def)
    then show "form n (Suc c) M d d' = form n (Suc c) M d' d" by (simp add: fdrop)
  qed
  have eps': "has_eps n (Suc c) M D"
    unfolding has_eps_def
  proof (intro allI impI)
    fix m assume m: "Suc c \<le> m \<and> m < n \<and> m \<notin> D"
    then have "c \<le> m" by simp
    from has_epsD [OF eps this] m
    show "\<exists>u. u m = 1 \<and> (\<forall>j. u j \<noteq> 0 \<longrightarrow> j = m \<or> (j \<in> D \<and> j < m)) \<and> kills n M D u"
      by simp
  qed
  from D' zl' sym' inj eps' show ?thesis by (simp add: elim_inv_def)
qed

lemma pivot_is_diagonal_if_pending:
  assumes "elim_inv n c M D" "c < n" "pivot_at n c p M" "c \<in> D"
  shows "p = c"
proof (rule ccontr)
  assume "p \<noteq> c"
  with assms(3) have "M c c = 0" by (simp add: pivot_at_def)
  moreover have "M c c = 1" using assms(1,2,4) by (rule inv_pending_diagonal)
  ultimately show False by simp
qed

lemma pivot_not_pending:
  assumes "elim_inv n c M D" "c < n" "pivot_at n c p M" "p \<noteq> c"
  shows "c \<notin> D" "p \<notin> D" "M c c = 0" "c < p"
proof -
  show 1: "c \<notin> D" using pivot_is_diagonal_if_pending [OF assms(1,2,3)] assms(4) by blast
  show "p \<notin> D"
  proof
    assume "p \<in> D"
    from inv_pending_zero_column [OF assms(1,2) 1 this] assms(3) show False
      by (simp add: pivot_at_def)
  qed
  show "c < p" using assms(3,4) by (simp add: pivot_at_def)
  then show "M c c = 0" using assms(3) by (simp add: pivot_at_def)
qed

lemma ext_pivot_row:
  assumes "c < n" "pivot_at n c p M"
  shows "dot n (M p) (ext n c (M p) d) = 0"
  using assms by (intro ext_kills_pivot) (simp_all add: pivot_at_def)

lemma ext_pending_row:
  assumes "elim_inv n c M D" "c < n" "c \<notin> D" "q \<in> D"
  shows "dot n (M q) (ext n c r v) = dot n (M q) v"
  using inv_pending_zero_column [OF assms] assms(2) by (simp add: ext_def dot_update)

lemma ext_zero_diag_row:
  assumes "c < n" "r c = 0"
  shows "dot n r (ext n c r' v) = dot n r v"
  using assms by (simp add: ext_def dot_update)

lemma pending_range:
  assumes "elim_inv n c M D" "q \<in> D"
  shows "c \<le> q" "q < n"
  using assms by (auto simp: elim_inv_def)

lemma step_kills:
  assumes I: "elim_inv n c M D" and c: "c < n" and piv: "pivot_at n c p M"
    and ps: "pstep n c p M M'" and k: "kills n M' (insert p D - {c}) d"
  shows "kills n M D (ext n c (M p) d)" "dot n (M c) (ext n c (M p) d) = 0"
proof -
  let ?E = "ext n c (M p)"
  from I have D: "D \<subseteq> {c..<n}" by (simp add: elim_inv_def)
  show c0: "dot n (M c) (?E d) = 0"
  proof (cases "p = c")
    case True
    then show ?thesis using ext_pivot_row [OF c piv] by simp
  next
    case False
    from pivot_not_pending [OF I c piv False] piv have p: "c < p" "p < n"
      by (simp_all add: pivot_at_def)
    from k False have "dot n (M' p) d = 0" by (simp add: kills_def)
    then show ?thesis using pstep_dot [OF ps c p, of d] by simp
  qed
  show "kills n M D (?E d)"
    unfolding kills_def
  proof
    fix q assume q: "q \<in> D"
    show "dot n (M q) (?E d) = 0"
    proof (cases "q = c \<or> q = p")
      case True
      then show ?thesis using c0 ext_pivot_row [OF c piv] by auto
    next
      case False
      with q D have r: "c < q" "q < n" by auto
      from False q k have "dot n (M' q) d = 0" by (simp add: kills_def)
      then show ?thesis using pstep_dot [OF ps c r, of d] False by (simp add: tr_other)
    qed
  qed
qed

lemma form_step:
  assumes I: "elim_inv n c M D" and c: "c < n" and piv: "pivot_at n c p M"
    and ps: "pstep n c p M M'" and k: "kills n M' (insert p D - {c}) d'"
  shows "form n (Suc c) M' d d' = form n c M (ext n c (M p) d) (ext n c (M p) d')"
proof -
  let ?E = "ext n c (M p)"
  have c0: "dot n (M c) (?E d') = 0" using I c piv ps k by (rule step_kills(2))
  have p0: "dot n (M p) (?E d') = 0" using c piv by (rule ext_pivot_row)
  have "form n c M (?E d) (?E d') = (\<Sum>i\<in>{Suc c..<n}. ?E d i * dot n (M i) (?E d'))"
    using c c0 by (simp add: form_def sum.atLeast_Suc_lessThan)
  also have "\<dots> = (\<Sum>i\<in>{Suc c..<n}. d i * dot n (M' i) d')"
  proof (intro sum.cong refl)
    fix i assume "i \<in> {Suc c..<n}"
    then have i: "c < i" "i < n" by auto
    have "dot n (M' i) d' = dot n (M i) (?E d')"
    proof (cases "i = p")
      case True
      have "dot n (M' p) d' = dot n (M c) (?E d')"
        using pstep_dot [OF ps c i, of d'] unfolding True by simp
      then show ?thesis using c0 p0 True by simp
    next
      case False
      then show ?thesis using pstep_dot [OF ps c i, of d'] i by (simp add: tr_other)
    qed
    then show "?E d i * dot n (M i) (?E d') = d i * dot n (M' i) d'"
      using i by (simp add: ext_other)
  qed
  finally show ?thesis by (simp add: form_def)
qed

lemma step_sym:
  assumes I: "elim_inv n c M D" and c: "c < n" and piv: "pivot_at n c p M"
    and ps: "pstep n c p M M'"
  shows "sym_form n (Suc c) M' (insert p D - {c})"
  unfolding sym_form_def
proof (intro allI impI)
  fix d d'
  assume k: "kills n M' (insert p D - {c}) d" and k': "kills n M' (insert p D - {c}) d'"
  from I have sym: "sym_form n c M D" by (simp add: elim_inv_def)
  let ?E = "ext n c (M p)"
  have "form n (Suc c) M' d d' = form n c M (?E d) (?E d')"
    using I c piv ps k' by (rule form_step)
  also have "\<dots> = form n c M (?E d') (?E d)"
    using sym step_kills(1) [OF I c piv ps k] step_kills(1) [OF I c piv ps k']
    by (simp add: sym_form_def)
  also have "\<dots> = form n (Suc c) M' d' d"
    using I c piv ps k by (rule form_step [symmetric])
  finally show "form n (Suc c) M' d d' = form n (Suc c) M' d' d" .
qed

lemma step_pending_row:
  assumes I: "elim_inv n c M D" and c: "c < n" and ps: "pstep n c p M M'"
    and cD: "c \<notin> D" and q: "q \<in> D" "q \<noteq> p"
  shows "dot n (M' q) v = dot n (M q) v"
proof -
  have "q \<noteq> c" using q(1) cD by auto
  with pending_range [OF I q(1)] have r: "c < q" "q < n" by simp_all
  then have "dot n (M' q) v = dot n (M q) (ext n c (M p) v)"
    using pstep_dot [OF ps c r, of v] q(2) by (simp add: tr_other)
  then show ?thesis using ext_pending_row [OF I c cD q(1)] by simp
qed

lemma step_swapped_row:
  assumes c: "c < n" and ps: "pstep n c p M M'" and p: "c < p" "p < n" and z: "M c c = 0"
  shows "dot n (M' p) v = dot n (M c) v"
  using pstep_dot [OF ps c p, of v] ext_zero_diag_row [of c n "M c", OF c z] by simp

lemma eps_row_value:
  assumes I: "elim_inv n c M D" and c: "c < n" and cD: "c \<notin> D"
    and u: "u m = 1" "\<forall>j. u j \<noteq> 0 \<longrightarrow> j = m \<or> (j \<in> D \<and> j < m)" "kills n M D u"
    and m: "c \<le> m" "m < n"
  shows "dot n (M c) u = M m c"
proof -
  have "dot n (M c) u = (\<Sum>i\<in>{c..<n}. u i * M i c)"
    using I c cD u(3) by (rule inv_row_by_column)
  also have "\<dots> = M m c"
  proof (rule column_sum_single [where D = D])
    show "u m = 1" by (rule u(1))
    show "\<forall>j. u j \<noteq> 0 \<longrightarrow> j = m \<or> j \<in> D" using u(2) by blast
    show "\<forall>q\<in>D. M q c = 0" using inv_pending_zero_column [OF I c cD] by blast
    show "c \<le> m" "m < n" by (rule m)+
  qed
  finally show ?thesis .
qed

lemma step_inj:
  assumes I: "elim_inv n c M D" and c: "c < n" and piv: "pivot_at n c p M"
    and ps: "pstep n c p M M'"
  shows "inj_on_pending n M' (insert p D - {c})"
  unfolding inj_on_pending_def
proof (intro allI impI)
  fix m u j
  let ?D' = "insert p D - {c}"
  let ?E = "ext n c (M p)"
  assume supp: "\<forall>j. u j \<noteq> 0 \<longrightarrow> j \<in> ?D' \<and> j \<le> m"
    and kz: "\<forall>q\<in>?D'. q \<le> m \<longrightarrow> dot n (M' q) u = 0"
  from I have D: "D \<subseteq> {c..<n}" and inj: "inj_on_pending n M D" and eps: "has_eps n c M D"
    by (simp_all add: elim_inv_def)
  have uc: "u c = 0" using supp by auto
  have "\<forall>j. u j = 0"
  proof (cases "c \<in> D")
    case True
    then have pc: "p = c" using pivot_is_diagonal_if_pending [OF I c piv] by simp
    have 1: "\<forall>j. ?E u j \<noteq> 0 \<longrightarrow> j \<in> D \<and> j \<le> max m c"
    proof (intro allI impI)
      fix j assume nz: "?E u j \<noteq> 0"
      show "j \<in> D \<and> j \<le> max m c"
      proof (cases "j = c")
        case True
        then show ?thesis using \<open>c \<in> D\<close> by simp
      next
        case False
        with nz have "u j \<noteq> 0" by (simp add: ext_other)
        with supp have "j \<in> ?D'" "j \<le> m" by auto
        then show ?thesis using pc by auto
      qed
    qed
    have 2: "\<forall>q\<in>D. q \<le> max m c \<longrightarrow> dot n (M q) (?E u) = 0"
    proof (intro ballI impI)
      fix q assume q: "q \<in> D" "q \<le> max m c"
      show "dot n (M q) (?E u) = 0"
      proof (cases "q = c")
        case True
        then show ?thesis using ext_pivot_row [OF c piv, of u] pc by simp
      next
        case False
        with q(2) pending_range [OF I q(1)] have r: "c < q" "q < n" "q \<le> m" by simp_all
        from False q(1) have "q \<in> ?D'" by simp
        with kz r(3) have "dot n (M' q) u = 0" by blast
        then show ?thesis using pstep_dot [OF ps c r(1,2), of u] False pc by (simp add: tr_other)
      qed
    qed
    have z: "?E u j = 0" for j
      using 1 2 by (intro inj_on_pendingD [OF inj, where m = "max m c" and u = "?E u" and j = j]) blast+
    show ?thesis
    proof
      fix j show "u j = 0"
        using z [of j] uc by (cases "j = c") (simp_all add: ext_other)
    qed
  next
    case cD: False
    have rows: "dot n (M q) u = 0" if "q \<in> D" "q \<noteq> p" "q \<le> m" for q
    proof -
      from that cD have "q \<in> ?D'" by auto
      with kz that(3) have "dot n (M' q) u = 0" by blast
      then show ?thesis using step_pending_row [OF I c ps cD that(1,2), of u] by simp
    qed
    show ?thesis
    proof (cases "p \<in> D \<or> u p = 0")
      case True
      have pD: "p \<notin> D" if "p \<noteq> c" using pivot_not_pending(2) [OF I c piv that] .
      have 1: "\<forall>j. u j \<noteq> 0 \<longrightarrow> j \<in> D \<and> j \<le> m"
      proof (intro allI impI)
        fix j assume nz: "u j \<noteq> 0"
        with supp have j: "j \<in> ?D'" "j \<le> m" by auto
        have "j \<noteq> p \<or> p \<in> D" using True nz by auto
        with j show "j \<in> D \<and> j \<le> m" by auto
      qed
      have 2: "\<forall>q\<in>D. q \<le> m \<longrightarrow> dot n (M q) u = 0"
      proof (intro ballI impI)
        fix q assume q: "q \<in> D" "q \<le> m"
        have "q \<noteq> p"
        proof
          assume "q = p"
          with q(1) pD have "p = c" by blast
          with \<open>q = p\<close> q(1) cD show False by simp
        qed
        with q show "dot n (M q) u = 0" by (intro rows)
      qed
      have "u j = 0" for j
        using 1 2 by (intro inj_on_pendingD [OF inj, where m = m and u = u and j = j]) blast+
      then show ?thesis by blast
    next
      case False
      then have pD: "p \<notin> D" and up: "u p = 1" using gf2_cases [of "u p"] by auto
      have pc: "p \<noteq> c" using up uc by auto
      from pivot_not_pending [OF I c piv pc] have cz: "M c c = 0" and cp: "c < p" by simp_all
      from piv have pn: "p < n" and pv: "M p c = 1" by (simp_all add: pivot_at_def)
      from supp up have pm: "p \<le> m" by auto
      have "p \<in> ?D'" using pc by simp
      with kz pm have "dot n (M' p) u = 0" by blast
      then have cu: "dot n (M c) u = 0"
        using step_swapped_row [OF c ps cp pn cz, of u] by simp
      from has_epsD [OF eps less_imp_le [OF cp] pn pD] obtain e where
        e: "e p = 1" "\<forall>j. e j \<noteq> 0 \<longrightarrow> j = p \<or> (j \<in> D \<and> j < p)" "kills n M D e"
        by blast
      let ?w = "\<lambda>j. u j + e j"
      have 1: "\<forall>j. ?w j \<noteq> 0 \<longrightarrow> j \<in> D \<and> j \<le> m"
      proof (intro allI impI)
        fix j assume nz: "?w j \<noteq> 0"
        have jp: "j \<noteq> p" using nz up e(1) by auto
        show "j \<in> D \<and> j \<le> m"
        proof (cases "u j = 0")
          case True
          with nz have "e j \<noteq> 0" by simp
          with e(2) jp have "j \<in> D" "j < p" by auto
          then show ?thesis using pm by simp
        next
          case False
          with supp have "j \<in> ?D'" "j \<le> m" by auto
          then show ?thesis using jp by auto
        qed
      qed
      have 2: "\<forall>q\<in>D. q \<le> m \<longrightarrow> dot n (M q) ?w = 0"
      proof (intro ballI impI)
        fix q assume q: "q \<in> D" "q \<le> m"
        then have "q \<noteq> p" using pD by auto
        with q have "dot n (M q) u = 0" by (intro rows)
        moreover have "dot n (M q) e = 0" using e(3) q(1) by (simp add: kills_def)
        ultimately show "dot n (M q) ?w = 0" by (simp add: dot_add_right)
      qed
      have "?w j = 0" for j
        using 1 2 by (intro inj_on_pendingD [OF inj, where m = m and u = ?w and j = j]) blast+
      then have ue: "u j = e j" for j by (simp add: gf2_add_eq_0)
      have "dot n (M c) e = dot n (M c) u" by (intro dot_cong) (simp_all add: ue)
      moreover have "dot n (M c) e = M p c"
        using I c cD e less_imp_le [OF cp] pn by (rule eps_row_value)
      ultimately show ?thesis using cu pv by simp
    qed
  qed
  then show "u j = 0" by blast
qed

lemma step_eps:
  assumes I: "elim_inv n c M D" and c: "c < n" and piv: "pivot_at n c p M"
    and ps: "pstep n c p M M'"
  shows "has_eps n (Suc c) M' (insert p D - {c})"
  unfolding has_eps_def
proof (intro allI impI)
  fix m
  let ?D' = "insert p D - {c}"
  let ?E = "ext n c (M p)"
  assume a: "Suc c \<le> m \<and> m < n \<and> m \<notin> ?D'"
  then have m: "c < m" "m < n" "c \<le> m" by simp_all
  from a have mD': "m \<notin> ?D'" by blast
  from I have eps: "has_eps n c M D" by (simp add: elim_inv_def)
  from piv have pn: "p < n" and pv: "M p c = 1" and cp: "c \<le> p"
    and before: "\<forall>i. c \<le> i \<and> i < p \<longrightarrow> M i c = 0" by (simp_all add: pivot_at_def)
  have mc: "m \<noteq> c" using m(1) by simp
  have mD: "m \<notin> D" using mD' mc by auto
  have mp: "m \<noteq> p" using mD' mc by auto
  from has_epsD [OF eps m(3,2) mD] obtain u where
    u: "u m = 1" "\<forall>j. u j \<noteq> 0 \<longrightarrow> j = m \<or> (j \<in> D \<and> j < m)" "kills n M D u" by blast
  show "\<exists>u. u m = 1 \<and> (\<forall>j. u j \<noteq> 0 \<longrightarrow> j = m \<or> (j \<in> ?D' \<and> j < m)) \<and> kills n M' ?D' u"
  proof (cases "c \<in> D")
    case True
    then have pc: "p = c" using pivot_is_diagonal_if_pending [OF I c piv] by simp
    from u(3) True have cu: "dot n (M p) u = 0" by (simp add: kills_def pc)
    let ?u' = "u(c := 0)"
    have Eu: "?E ?u' = u"
      using ext_update [OF c, of "M p" u 0] ext_same [OF cu, of c] pv pc by simp
    have 1: "?u' m = 1" using u(1) mc by simp
    have 2: "\<forall>j. ?u' j \<noteq> 0 \<longrightarrow> j = m \<or> (j \<in> ?D' \<and> j < m)" using u(2) by auto
    have 3: "kills n M' ?D' ?u'"
      unfolding kills_def
    proof
      fix q assume q: "q \<in> ?D'"
      then have qD: "q \<in> D" "q \<noteq> c" using pc by auto
      with pending_range [OF I qD(1)] have r: "c < q" "q < n" by simp_all
      have "dot n (M' q) ?u' = dot n (M q) (?E ?u')"
        using pstep_dot [OF ps c r, of ?u'] qD(2) pc by (simp add: tr_other)
      also have "\<dots> = 0" using u(3) qD(1) by (simp add: Eu kills_def)
      finally show "dot n (M' q) ?u' = 0" .
    qed
    from 1 2 3 show ?thesis by blast
  next
    case cD: False
    have rows: "dot n (M' q) v = dot n (M q) v" if "q \<in> D" "q \<noteq> p" for q v
      using I c ps cD that by (rule step_pending_row)
    show ?thesis
    proof (cases "p = c")
      case True
      have "kills n M' ?D' u"
        unfolding kills_def
      proof
        fix q assume "q \<in> ?D'"
        then have "q \<in> D" "q \<noteq> p" using True by auto
        then show "dot n (M' q) u = 0" using rows u(3) by (simp add: kills_def)
      qed
      moreover have "\<forall>j. u j \<noteq> 0 \<longrightarrow> j = m \<or> (j \<in> ?D' \<and> j < m)"
        using u(2) cD by auto
      ultimately show ?thesis using u(1) by blast
    next
      case False
      from pivot_not_pending [OF I c piv False] have pD: "p \<notin> D" and cz: "M c c = 0"
        and cp': "c < p" by simp_all
      have prow: "dot n (M' p) v = dot n (M c) v" for v
        using c ps cp' pn cz by (rule step_swapped_row)
      have cu: "dot n (M c) u = M m c"
        using I c cD u m(3,2) by (rule eps_row_value)
      show ?thesis
      proof (cases "M m c = 0")
        case True
        have "kills n M' ?D' u"
          unfolding kills_def
        proof
          fix q assume q: "q \<in> ?D'"
          show "dot n (M' q) u = 0"
          proof (cases "q = p")
            case True
            then show ?thesis using prow cu \<open>M m c = 0\<close> by simp
          next
            case False
            with q have "q \<in> D" by auto
            then show ?thesis using rows False u(3) by (simp add: kills_def)
          qed
        qed
        moreover have "\<forall>j. u j \<noteq> 0 \<longrightarrow> j = m \<or> (j \<in> ?D' \<and> j < m)"
          using u(2) cD by auto
        ultimately show ?thesis using u(1) by blast
      next
        case nz: False
        then have mv: "M m c = 1" using gf2_cases [of "M m c"] by simp
        have pm: "p < m"
        proof (rule ccontr)
          assume "\<not> p < m"
          with mp have "m < p" by simp
          with before m(3) nz show False by simp
        qed
        from has_epsD [OF eps cp pn pD] obtain e where
          e: "e p = 1" "\<forall>j. e j \<noteq> 0 \<longrightarrow> j = p \<or> (j \<in> D \<and> j < p)" "kills n M D e" by blast
        have ce: "dot n (M c) e = M p c"
          using I c cD e cp pn by (rule eps_row_value)
        let ?u' = "\<lambda>j. u j + e j"
        have em: "e m = 0" using e(2) mp mD by blast
        have 1: "?u' m = 1" using u(1) em by simp
        have 2: "\<forall>j. ?u' j \<noteq> 0 \<longrightarrow> j = m \<or> (j \<in> ?D' \<and> j < m)"
        proof (intro allI impI)
          fix j assume nzj: "?u' j \<noteq> 0"
          show "j = m \<or> (j \<in> ?D' \<and> j < m)"
          proof (cases "u j = 0")
            case True
            with nzj have "e j \<noteq> 0" by simp
            with e(2) have "j = p \<or> (j \<in> D \<and> j < p)" by blast
            then show ?thesis using pm False cD by auto
          next
            case False
            with u(2) have "j = m \<or> (j \<in> D \<and> j < m)" by blast
            then show ?thesis using cD by auto
          qed
        qed
        have 3: "kills n M' ?D' ?u'"
          unfolding kills_def
        proof
          fix q assume q: "q \<in> ?D'"
          show "dot n (M' q) ?u' = 0"
          proof (cases "q = p")
            case True
            have "dot n (M' p) ?u' = dot n (M c) u + dot n (M c) e"
              by (simp add: prow dot_add_right)
            then show ?thesis using True cu ce mv pv by simp
          next
            case False
            with q have qD: "q \<in> D" by auto
            have "dot n (M' q) ?u' = dot n (M q) u + dot n (M q) e"
              using rows [OF qD False] by (simp add: dot_add_right)
            then show ?thesis using u(3) e(3) qD by (simp add: kills_def)
          qed
        qed
        show ?thesis
        proof (intro exI conjI)
          show "?u' m = 1" by (rule 1)
          show "\<forall>j. ?u' j \<noteq> 0 \<longrightarrow> j = m \<or> (j \<in> ?D' \<and> j < m)" by (rule 2)
          show "kills n M' ?D' ?u'" by (rule 3)
        qed
      qed
    qed
  qed
qed

lemma elim_inv_pivot_step:
  assumes I: "elim_inv n c M D" and c: "c < n" and piv: "pivot_at n c p M"
    and ps: "pstep n c p M M'" and zl: "zero_left n (Suc c) M'"
  shows "elim_inv n (Suc c) M' (insert p D - {c})"
proof -
  have "insert p D - {c} \<subseteq> {Suc c..<n}"
  proof
    fix q assume q: "q \<in> insert p D - {c}"
    then have "q \<noteq> c" by simp
    moreover have "c \<le> q \<and> q < n"
    proof (cases "q = p")
      case True
      then show ?thesis using piv by (simp add: pivot_at_def)
    next
      case False
      with q have "q \<in> D" by simp
      then show ?thesis using pending_range [OF I] by simp
    qed
    ultimately show "q \<in> {Suc c..<n}" by simp
  qed
  with zl step_sym [OF I c piv ps] step_inj [OF I c piv ps] step_eps [OF I c piv ps]
  show ?thesis by (simp add: elim_inv_def)
qed

lemma elim_inv_initial:
  assumes "\<forall>i<n. \<forall>j<n. M i j = M j i"
  shows "elim_inv n 0 M {}"
proof -
  have "form n 0 M d d' = form n 0 M d' d" for d d'
  proof -
    have "form n 0 M d d' = (\<Sum>i<n. \<Sum>j<n. d i * (M i j * d' j))"
      by (simp add: form_def dot_def sum_distrib_left atLeast0LessThan)
    also have "\<dots> = (\<Sum>j<n. \<Sum>i<n. d i * (M i j * d' j))" by (rule sum.swap)
    also have "\<dots> = (\<Sum>j<n. \<Sum>i<n. d' j * (M j i * d i))"
      using assms by (intro sum.cong refl) (simp add: mult_ac)
    finally show ?thesis by (simp add: form_def dot_def sum_distrib_left atLeast0LessThan)
  qed
  then have "sym_form n 0 M {}" by (simp add: sym_form_def)
  moreover have "inj_on_pending n M {}" by (auto simp: inj_on_pending_def)
  moreover have "has_eps n 0 M {}"
    unfolding has_eps_def
  proof (intro allI impI)
    fix m
    have "unitv m m = 1" "\<forall>j. unitv m j \<noteq> 0 \<longrightarrow> j = m \<or> (j \<in> {} \<and> j < m)" "kills n M {} (unitv m)"
      by (simp_all add: unitv_def kills_def)
    then show "\<exists>u. u m = 1 \<and> (\<forall>j. u j \<noteq> 0 \<longrightarrow> j = m \<or> (j \<in> {} \<and> j < m)) \<and> kills n M {} u"
      by blast
  qed
  ultimately show ?thesis by (simp add: elim_inv_def zero_left_def)
qed

section \<open>The solver unlocks every reachable box\<close>

lemma state_at_0 [simp]: "state_at n Ab 0 = Ab"
  by (simp add: state_at_def)

lemma state_at_Suc: "state_at n Ab (Suc c) = eliminate_col n c (state_at n Ab c)"
  by (simp add: state_at_def)

lemma state_at_n: "state_at n Ab n = eliminate n Ab"
  by (simp add: state_at_def eliminate_def)

lemma pstep_dot_sum:
  assumes "pstep n c p M M'" "c < i" "i < n"
  shows "dot n (M' i) d = dot n (M (tr c p i)) d + M (tr c p i) c * dot n (M p) d"
proof -
  have "dot n (M' i) d = dot n (\<lambda>k. M (tr c p i) k + M (tr c p i) c * M p k) d"
    using assms by (intro dot_cong) (simp_all add: pstep_def)
  then show ?thesis by (simp add: dot_add_left)
qed

lemma cleared_zero_left: "cleared n c (A, b) \<Longrightarrow> zero_left n c (mat A)"
  by (simp add: cleared_def zero_left_def mat_def)

lemma no_pivot_column:
  assumes "c < n" "find_pivot n A c c = n"
  shows "\<forall>i. c \<le> i \<and> i < n \<longrightarrow> mat A i c = 0"
  using find_pivot_from [of c n A c] assms by (simp add: mat_def)

lemma pivot_at_found:
  assumes "c < n" "find_pivot n A c c < n"
  shows "pivot_at n c (find_pivot n A c c) (mat A)"
  using find_pivot_from [of c n A c] assms by (simp add: pivot_at_def mat_def)

lemma mat_pivot_step:
  assumes cl: "cleared n c (A, b)" and c: "c < n" and p: "c \<le> p" "p < n"
    and ps: "pivot_step n c p (A, b) (A', b')"
  shows "pstep n c p (mat A) (mat A')"
    and "\<forall>i. c < i \<and> i < n \<longrightarrow> vec b' i = vec b (tr c p i) + mat A (tr c p i) c * vec b p"
    and "\<forall>k<n. mat A' c k = mat A p k"
    and "vec b' c = vec b p"
    and "\<forall>i k. i < c \<and> k < n \<longrightarrow> A' ! i ! k = A ! i ! k"
    and "\<forall>i. i < c \<longrightarrow> b' ! i = b ! i"
proof -
  from ps have cells: "\<forall>i<n. \<forall>k<n. A' ! i ! k =
        (if c < i \<and> A ! tr c p i ! c \<and> c \<le> k
         then A ! tr c p i ! k \<noteq> A ! p ! k else A ! tr c p i ! k)"
    and rhs: "\<forall>i<n. b' ! i =
        (if c < i \<and> A ! tr c p i ! c then b ! tr c p i \<noteq> b ! p else b ! tr c p i)"
    by (simp_all add: pivot_step_def)
  from cl have z: "\<forall>r<n. \<forall>k<c. c \<le> r \<longrightarrow> \<not> A ! r ! k" by (simp add: cleared_def)
  show "pstep n c p (mat A) (mat A')"
    unfolding pstep_def
  proof (intro allI impI)
    fix i k assume a: "c < i \<and> i < n \<and> k < n"
    show "mat A' i k = mat A (tr c p i) k + mat A (tr c p i) c * mat A p k"
    proof (cases "c \<le> k")
      case True
      then show ?thesis using cells a by (simp add: mat_def of_bool_xor)
    next
      case False
      then have "\<not> A ! p ! k" using z p by simp
      then show ?thesis using cells a False by (simp add: mat_def)
    qed
  qed
  show "\<forall>i. c < i \<and> i < n \<longrightarrow> vec b' i = vec b (tr c p i) + mat A (tr c p i) c * vec b p"
    using rhs by (simp add: vec_def mat_def of_bool_xor)
  show "\<forall>k<n. mat A' c k = mat A p k" using cells c by (simp add: mat_def)
  show "vec b' c = vec b p" using rhs c by (simp add: vec_def)
  show "\<forall>i k. i < c \<and> k < n \<longrightarrow> A' ! i ! k = A ! i ! k"
    using cells c p by (auto simp: tr_def)
  show "\<forall>i. i < c \<longrightarrow> b' ! i = b ! i"
    using rhs c p by (auto simp: tr_def)
qed

lemma tr_range: "c \<le> p \<Longrightarrow> p < n \<Longrightarrow> c \<le> i \<Longrightarrow> i < n \<Longrightarrow> c \<le> tr c p i \<and> tr c p i < n"
  by (simp add: tr_def)

lemma solves_pivot_step:
  assumes ps: "pstep n c p M M'"
    and rhs: "\<forall>i. c < i \<and> i < n \<longrightarrow> v' i = v (tr c p i) + M (tr c p i) c * v p"
    and p: "c \<le> p" "p < n"
    and Z: "\<forall>i. c \<le> i \<and> i < n \<longrightarrow> dot n (M i) Z = v i"
    and i: "c < i" "i < n"
  shows "dot n (M' i) Z = v' i"
proof -
  from tr_range [OF p, of i] i have t: "c \<le> tr c p i" "tr c p i < n" by simp_all
  have "dot n (M' i) Z = dot n (M (tr c p i)) Z + M (tr c p i) c * dot n (M p) Z"
    using ps i by (rule pstep_dot_sum)
  also have "\<dots> = v (tr c p i) + M (tr c p i) c * v p" using Z t p by simp
  also have "\<dots> = v' i" using rhs i by simp
  finally show ?thesis .
qed

lemma forward_invariant:
  assumes d: "dims A n n" "length b = n"
    and sym: "\<forall>i<n. \<forall>j<n. A ! i ! j = A ! j ! i"
    and Z: "solves n 0 (A, b) Z"
    and c: "c \<le> n"
  shows "cleared n c (state_at n (A, b) c) \<and>
         (\<exists>D. elim_inv n c (mat (fst (state_at n (A, b) c))) D) \<and>
         solves n c (state_at n (A, b) c) Z"
  using c
proof (induction c)
  case 0
  have "cleared n 0 (A, b)" using d by (simp add: cleared_def)
  moreover have "elim_inv n 0 (mat A) {}"
    using sym by (intro elim_inv_initial) (simp add: mat_def)
  ultimately show ?case using Z by auto
next
  case (Suc c)
  then have c: "c < n" by simp
  obtain Ac bc where st: "state_at n (A, b) c = (Ac, bc)" by (cases "state_at n (A, b) c")
  from Suc.IH c st obtain D where
    cl: "cleared n c (Ac, bc)" and I: "elim_inv n c (mat Ac) D" and sol: "solves n c (Ac, bc) Z"
    by auto
  from cl have dc: "dims Ac n n" "length bc = n" by (simp_all add: cleared_def)
  let ?p = "find_pivot n Ac c c"
  from eliminate_col_cells [OF dc c] obtain A' b' where
    E: "eliminate_col n c (Ac, bc) = (A', b')"
      "?p = n \<longrightarrow> A' = Ac \<and> b' = bc"
      "?p < n \<longrightarrow> pivot_step n c ?p (Ac, bc) (A', b')" by blast
  have st': "state_at n (A, b) (Suc c) = (A', b')" by (simp add: state_at_Suc st E(1))
  have cl': "cleared n (Suc c) (A', b')"
    using eliminate_col_cleared [OF cl c] E(1) by simp
  from find_pivot_from [of c n Ac c] c have pr: "c \<le> ?p" "?p \<le> n" by simp_all
  show ?case
  proof (cases "?p = n")
    case True
    with E(2) have same: "A' = Ac" "b' = bc" by simp_all
    have "elim_inv n (Suc c) (mat Ac) D"
      using I c no_pivot_column [OF c True] by (rule inv_free_step)
    moreover have "solves n (Suc c) (Ac, bc) Z" using sol by (simp add: solves_def)
    ultimately show ?thesis using cl' st' same by auto
  next
    case False
    with pr have p: "?p < n" by simp
    with E(3) have ps: "pivot_step n c ?p (Ac, bc) (A', b')" by simp
    note m = mat_pivot_step [OF cl c pr(1) p ps]
    have "elim_inv n (Suc c) (mat A') (insert ?p D - {c})"
      using I c pivot_at_found [OF c p] m(1) cleared_zero_left [OF cl']
      by (rule elim_inv_pivot_step)
    moreover have "solves n (Suc c) (A', b') Z"
      unfolding solves_def
    proof (intro allI impI)
      fix i assume "Suc c \<le> i \<and> i < n"
      then have i: "c < i" "i < n" by simp_all
      from sol have "\<forall>i. c \<le> i \<and> i < n \<longrightarrow> dot n (mat Ac i) Z = vec bc i"
        by (simp add: solves_def)
      with m(1,2) pr(1) p i show "dot n (mat (fst (A', b')) i) Z = vec (snd (A', b')) i"
        by (simp add: solves_pivot_step [where M = "mat Ac" and v = "vec bc" and p = ?p and c = c])
    qed
    ultimately show ?thesis using cl' st' by auto
  qed
qed

lemma state_at_cleared:
  assumes "dims A n n" "length b = n" "c \<le> n"
  shows "cleared n c (state_at n (A, b) c)"
  unfolding state_at_def using assms by (rule eliminate_prefix_cleared)

lemma rows_above_unchanged:
  assumes cl: "cleared n c (A, b)" and c: "c < n" and r: "r < c"
  shows "\<forall>k<n. fst (eliminate_col n c (A, b)) ! r ! k = A ! r ! k"
    and "snd (eliminate_col n c (A, b)) ! r = b ! r"
proof -
  from cl have d: "dims A n n" "length b = n" by (simp_all add: cleared_def)
  let ?p = "find_pivot n A c c"
  from eliminate_col_cells [OF d c] obtain A' b' where
    E: "eliminate_col n c (A, b) = (A', b')"
      "?p = n \<longrightarrow> A' = A \<and> b' = b"
      "?p < n \<longrightarrow> pivot_step n c ?p (A, b) (A', b')" by blast
  from find_pivot_from [of c n A c] c have pr: "c \<le> ?p" "?p \<le> n" by simp_all
  have "(\<forall>k<n. A' ! r ! k = A ! r ! k) \<and> b' ! r = b ! r"
  proof (cases "?p = n")
    case True
    then show ?thesis using E(2) by simp
  next
    case False
    with pr have p: "?p < n" by simp
    with E(3) have ps: "pivot_step n c ?p (A, b) (A', b')" by simp
    from mat_pivot_step(5,6) [OF cl c pr(1) p ps] r show ?thesis by simp
  qed
  then show "\<forall>k<n. fst (eliminate_col n c (A, b)) ! r ! k = A ! r ! k"
    and "snd (eliminate_col n c (A, b)) ! r = b ! r"
    by (simp_all add: E(1))
qed

lemma finished_rows:
  assumes d: "dims A n n" "length b = n" and c: "Suc r \<le> c" "c \<le> n"
  shows "(\<forall>k<n. fst (state_at n (A, b) c) ! r ! k = fst (state_at n (A, b) (Suc r)) ! r ! k) \<and>
         snd (state_at n (A, b) c) ! r = snd (state_at n (A, b) (Suc r)) ! r"
  using c
proof (induction c rule: dec_induct)
  case base
  show ?case by simp
next
  case (step m)
  then have m: "m < n" "r < m" by simp_all
  obtain Am bm where st: "state_at n (A, b) m = (Am, bm)" by (cases "state_at n (A, b) m")
  have cl: "cleared n m (Am, bm)"
    using state_at_cleared [OF d, of m] m(1) st by simp
  from rows_above_unchanged [OF cl m] step.IH m(1)
  show ?case by (simp add: state_at_Suc st)
qed

lemma inner_sum_value:
  fixes a x :: "nat \<Rightarrow> bool"
  assumes "lo \<le> hi"
  shows "(of_bool (fold (\<lambda>col s. s \<noteq> (a col \<and> x col)) [lo..<hi] s0) :: gf2) =
           of_bool s0 + (\<Sum>k\<in>{lo..<hi}. of_bool (a k) * of_bool (x k))"
proof (rule fold_upt_rule [where I = "\<lambda>m s. (of_bool s :: gf2) =
           of_bool s0 + (\<Sum>k\<in>{lo..<m}. of_bool (a k) * of_bool (x k))"])
  show "(of_bool s0 :: gf2) = of_bool s0 + (\<Sum>k\<in>{lo..<lo}. of_bool (a k) * of_bool (x k))"
    by simp
next
  fix k t
  assume k: "lo \<le> k" "k < hi"
    and t: "(of_bool t :: gf2) = of_bool s0 + (\<Sum>k\<in>{lo..<k}. of_bool (a k) * of_bool (x k))"
  have "(of_bool (t \<noteq> (a k \<and> x k)) :: gf2) = of_bool t + of_bool (a k) * of_bool (x k)"
    by (simp only: of_bool_xor of_bool_and)
  then show "(of_bool (t \<noteq> (a k \<and> x k)) :: gf2) =
      of_bool s0 + (\<Sum>k\<in>{lo..<Suc k}. of_bool (a k) * of_bool (x k))"
    using k(1) t by (simp add: add.assoc)
qed (rule assms)

lemma inner_sum_cong:
  assumes "\<And>col. lo \<le> col \<Longrightarrow> col < hi \<Longrightarrow> x ! col = y ! col"
  shows "fold (\<lambda>col s. s \<noteq> (A ! row ! col \<and> x ! col)) [lo..<hi] s0 =
         fold (\<lambda>col s. s \<noteq> (A ! row ! col \<and> y ! col)) [lo..<hi] s0"
  by (rule fold_cong) (use assms in auto)

lemma back_values_prefix:
  assumes "length xr = n" "m \<le> n"
  shows "length (fold (\<lambda>row xr. xr[row := fold (\<lambda>col s. s \<noteq> (A ! row ! col \<and> xr ! col))
                                   [Suc row..<n] (b ! row)]) (rev [0..<m]) xr) = n \<and>
         (\<forall>r. m \<le> r \<longrightarrow> fold (\<lambda>row xr. xr[row := fold (\<lambda>col s. s \<noteq> (A ! row ! col \<and> xr ! col))
                                   [Suc row..<n] (b ! row)]) (rev [0..<m]) xr ! r = xr ! r) \<and>
         (\<forall>r<m. fold (\<lambda>row xr. xr[row := fold (\<lambda>col s. s \<noteq> (A ! row ! col \<and> xr ! col))
                                   [Suc row..<n] (b ! row)]) (rev [0..<m]) xr ! r =
            fold (\<lambda>col s. s \<noteq> (A ! r ! col \<and>
                   fold (\<lambda>row xr. xr[row := fold (\<lambda>col s. s \<noteq> (A ! row ! col \<and> xr ! col))
                                   [Suc row..<n] (b ! row)]) (rev [0..<m]) xr ! col))
              [Suc r..<n] (b ! r))"
  using assms
proof (induction m arbitrary: xr)
  case 0
  then show ?case by simp
next
  case (Suc m)
  let ?inner = "\<lambda>row xr. fold (\<lambda>col s. s \<noteq> (A ! row ! col \<and> xr ! col)) [Suc row..<n] (b ! row)"
  let ?step = "\<lambda>row xr. xr[row := ?inner row xr]"
  let ?xr' = "?step m xr"
  let ?x = "fold ?step (rev [0..<m]) ?xr'"
  have run: "fold ?step (rev [0..<Suc m]) xr = ?x" by simp
  from Suc.prems have l': "length ?xr' = n" and m: "m \<le> n" "m < n" by simp_all
  from Suc.IH [OF l' m(1)]
  have len: "length ?x = n"
    and keep: "\<forall>r. m \<le> r \<longrightarrow> ?x ! r = ?xr' ! r"
    and fin: "\<forall>r<m. ?x ! r = ?inner r ?x" by blast+
  have keep': "\<forall>r. Suc m \<le> r \<longrightarrow> ?x ! r = xr ! r"
    using keep by simp
  have "?x ! m = ?inner m xr" using keep Suc.prems m(2) by simp
  also have "\<dots> = ?inner m ?x"
    by (rule inner_sum_cong) (use keep' in simp)
  finally have atm: "?x ! m = ?inner m ?x" .
  have "\<forall>r<Suc m. ?x ! r = ?inner r ?x"
    using fin atm by (simp add: less_Suc_eq)
  with len keep' show ?case unfolding run by blast
qed

lemma back_values_equations:
  assumes n: "n \<le> 2147483648"
  shows "length (back_values n (U, v)) = n \<and>
         (\<forall>r<n. vec (back_values n (U, v)) r =
            vec v r + (\<Sum>k\<in>{Suc r..<n}. mat U r k * vec (back_values n (U, v)) k))"
proof -
  have rows: "back_rows n = rev [0..<n]" using n by (simp add: back_rows_def)
  let ?x = "back_values n (U, v)"
  from back_values_prefix [of "replicate n False" n n U v]
  have len: "length ?x = n"
    and eq: "\<forall>r<n. ?x ! r =
        fold (\<lambda>col s. s \<noteq> (U ! r ! col \<and> ?x ! col)) [Suc r..<n] (v ! r)"
    by (simp_all add: back_values_def rows)
  have "vec ?x r = vec v r + (\<Sum>k\<in>{Suc r..<n}. mat U r k * vec ?x k)" if r: "r < n" for r
  proof -
    have "vec ?x r = of_bool (fold (\<lambda>col s. s \<noteq> (U ! r ! col \<and> ?x ! col)) [Suc r..<n] (v ! r))"
      using eq r by (simp add: vec_def)
    also have "\<dots> = of_bool (v ! r) + (\<Sum>k\<in>{Suc r..<n}. of_bool (U ! r ! k) * of_bool (?x ! k))"
      using r by (intro inner_sum_value) simp
    finally show ?thesis by (simp add: vec_def mat_def)
  qed
  with len show ?thesis by blast
qed

lemma dot_split:
  assumes "c < n" "\<forall>k<c. r k = 0"
  shows "dot n r X = r c * X c + (\<Sum>k\<in>{Suc c..<n}. r k * X k)"
proof -
  have "dot n r X = (\<Sum>k\<in>{0..<c}. r k * X k) + (\<Sum>k\<in>{c..<n}. r k * X k)"
    using assms(1) by (simp add: dot_def atLeast0LessThan [symmetric] sum.atLeastLessThan_concat)
  also have "(\<Sum>k\<in>{0..<c}. r k * X k) = 0" using assms(2) by simp
  also have "(\<Sum>k\<in>{c..<n}. r k * X k) = r c * X c + (\<Sum>k\<in>{Suc c..<n}. r k * X k)"
    using assms(1) by (simp add: sum.atLeast_Suc_lessThan)
  finally show ?thesis by simp
qed

lemma tr_tr: "tr c p (tr c p i) = i"
  by (simp add: tr_def)

lemma backward_solution:
  assumes d: "dims A n n" "length b = n"
    and sym: "\<forall>i<n. \<forall>j<n. A ! i ! j = A ! j ! i"
    and Z: "solves n 0 (A, b) Z"
    and n: "n \<le> 2147483648"
    and c: "c \<le> n"
  shows "solves n c (state_at n (A, b) c) (vec (back_values n (eliminate n (A, b))))"
  using c
proof (induction c rule: inc_induct)
  case base
  show ?case by (auto simp: solves_def)
next
  case (step c)
  let ?X = "vec (back_values n (eliminate n (A, b)))"
  from step.hyps have c: "c < n" by simp
  obtain Ac bc where st: "state_at n (A, b) c = (Ac, bc)" by (cases "state_at n (A, b) c")
  from forward_invariant [OF d sym Z, of c] c st obtain D where
    cl: "cleared n c (Ac, bc)" and I: "elim_inv n c (mat Ac) D" and sol: "solves n c (Ac, bc) Z"
    by auto
  from cl have dc: "dims Ac n n" "length bc = n" by (simp_all add: cleared_def)
  let ?p = "find_pivot n Ac c c"
  from eliminate_col_cells [OF dc c] obtain A' b' where
    E: "eliminate_col n c (Ac, bc) = (A', b')"
      "?p = n \<longrightarrow> A' = Ac \<and> b' = bc"
      "?p < n \<longrightarrow> pivot_step n c ?p (Ac, bc) (A', b')" by blast
  have st': "state_at n (A, b) (Suc c) = (A', b')" by (simp add: state_at_Suc st E(1))
  from step.IH st' have ih: "\<forall>i. c < i \<and> i < n \<longrightarrow> dot n (mat A' i) ?X = vec b' i"
    by (simp add: solves_def Suc_le_eq)
  from sol have solZ: "\<forall>i. c \<le> i \<and> i < n \<longrightarrow> dot n (mat Ac i) Z = vec bc i"
    by (simp add: solves_def)
  from find_pivot_from [of c n Ac c] c have pr: "c \<le> ?p" "?p \<le> n" by simp_all
  have "dot n (mat Ac i) ?X = vec bc i" if i: "c \<le> i" "i < n" for i
  proof (cases "?p = n")
    case True
    with E(2) have same: "A' = Ac" "b' = bc" by simp_all
    show ?thesis
    proof (cases "i = c")
      case False
      with i ih same show ?thesis by simp
    next
      case ic: True
      have free: "\<forall>i. c \<le> i \<and> i < n \<longrightarrow> mat Ac i c = 0" using c True by (rule no_pivot_column)
      have cD: "c \<notin> D"
      proof
        assume "c \<in> D"
        from inv_pending_diagonal [OF I c this] free c show False by simp
      qed
      let ?d = "\<lambda>j. ?X j + Z j"
      have k: "kills n (mat Ac) D ?d"
        unfolding kills_def
      proof
        fix q assume q: "q \<in> D"
        with cD have "q \<noteq> c" by auto
        with pending_range [OF I q] have r: "c < q" "q < n" by simp_all
        have "dot n (mat Ac q) ?d = dot n (mat Ac q) ?X + dot n (mat Ac q) Z"
          by (rule dot_add_right)
        then show "dot n (mat Ac q) ?d = 0" using ih solZ r same by simp
      qed
      have "dot n (mat Ac c) ?d = (\<Sum>i\<in>{c..<n}. ?d i * mat Ac i c)"
        using I c cD k by (rule inv_row_by_column)
      also have "\<dots> = 0" using free by simp
      finally have "dot n (mat Ac c) ?X + dot n (mat Ac c) Z = 0"
        by (simp add: dot_add_right)
      then have "dot n (mat Ac c) ?X = dot n (mat Ac c) Z" by (simp add: gf2_add_eq_0)
      then show ?thesis using solZ c ic by simp
    qed
  next
    case False
    with pr have p: "?p < n" by simp
    with E(3) have ps: "pivot_step n c ?p (Ac, bc) (A', b')" by simp
    note m = mat_pivot_step [OF cl c pr(1) p ps]
    from cl have zl: "\<forall>k<c. mat Ac ?p k = 0"
      using pr(1) p by (simp add: cleared_def mat_def)
    from pivot_at_found [OF c p] have pv: "mat Ac ?p c = 1" by (simp add: pivot_at_def)
    obtain U v where fin: "eliminate n (A, b) = (U, v)" by (cases "eliminate n (A, b)")
    from finished_rows [OF d, of c n] c st' fin
    have last: "\<forall>k<n. U ! c ! k = A' ! c ! k" "v ! c = b' ! c"
      by (simp_all add: state_at_n)
    from back_values_equations [OF n, of U v] c fin
    have "?X c = vec v c + (\<Sum>k\<in>{Suc c..<n}. mat U c k * ?X k)" by simp
    also have "vec v c = vec bc ?p" using last(2) m(4) by (simp add: vec_def)
    also have "(\<Sum>k\<in>{Suc c..<n}. mat U c k * ?X k) = (\<Sum>k\<in>{Suc c..<n}. mat Ac ?p k * ?X k)"
    proof (intro sum.cong refl)
      fix k assume "k \<in> {Suc c..<n}"
      then have "k < n" by simp
      then have "mat U c k = mat Ac ?p k" using last(1) m(3) by (simp add: mat_def)
      then show "mat U c k * ?X k = mat Ac ?p k * ?X k" by simp
    qed
    finally have xc: "?X c = vec bc ?p + (\<Sum>k\<in>{Suc c..<n}. mat Ac ?p k * ?X k)" .
    have "dot n (mat Ac ?p) ?X = mat Ac ?p c * ?X c + (\<Sum>k\<in>{Suc c..<n}. mat Ac ?p k * ?X k)"
      using c zl by (rule dot_split)
    also have "\<dots> = ?X c + (\<Sum>k\<in>{Suc c..<n}. mat Ac ?p k * ?X k)" by (simp add: pv)
    also have "\<dots> = vec bc ?p" by (subst xc) (simp add: add.assoc)
    finally have prow: "dot n (mat Ac ?p) ?X = vec bc ?p" .
    show ?thesis
    proof (cases "i = ?p")
      case True
      then show ?thesis using prow by simp
    next
      case ip: False
      let ?i' = "tr c ?p i"
      have i': "c < ?i'" "?i' < n" using i ip pr(1) p by (auto simp: tr_def)
      have tt: "tr c ?p ?i' = i" by (rule tr_tr)
      have "dot n (mat A' ?i') ?X =
            dot n (mat Ac (tr c ?p ?i')) ?X + mat Ac (tr c ?p ?i') c * dot n (mat Ac ?p) ?X"
        using m(1) i' by (rule pstep_dot_sum)
      then have 1: "dot n (mat A' ?i') ?X = dot n (mat Ac i) ?X + mat Ac i c * vec bc ?p"
        by (simp add: tt prow)
      have 2: "vec b' ?i' = vec bc i + mat Ac i c * vec bc ?p"
        using m(2) i' by (simp add: tt)
      from ih i' have "dot n (mat A' ?i') ?X = vec b' ?i'" by simp
      with 1 2 show ?thesis by simp
    qed
  qed
  then show ?case by (simp add: solves_def st)
qed

lemma symmetric_system_values:
  assumes "dims A n n" "length b = n"
    and "\<forall>i<n. \<forall>j<n. A ! i ! j = A ! j ! i"
    and "\<forall>i<n. dot n (mat A i) Z = vec b i"
    and "n \<le> 2147483648"
  shows "\<forall>i<n. dot n (mat A i) (vec (back_values n (eliminate n (A, b)))) = vec b i"
proof -
  have "solves n 0 (A, b) Z" using assms(4) by (simp add: solves_def)
  from backward_solution [OF assms(1,2,3) this assms(5), of 0]
  show ?thesis by (simp add: solves_def)
qed

text \<open>
  The two loops solve every consistent symmetric system of fewer than \<open>2 ^ 31\<close> unknowns.
\<close>

lemma symmetric_system_solved:
  assumes "dims A n n" "length b = n"
    and "\<forall>i<n. \<forall>j<n. A ! i ! j = A ! j ! i"
    and "\<forall>i<n. dot n (mat A i) Z = vec b i"
    and "n < 2147483648"
  shows "\<exists>xs. back_substitute n (eliminate n (A, b)) = Inr xs \<and> length xs = n \<and>
           (\<forall>i<n. dot n (mat A i) (vec xs) = vec b i)"
proof -
  from assms(5) have le: "n \<le> 2147483648" and ne: "n \<noteq> 2147483648" by simp_all
  let ?xs = "back_values n (eliminate n (A, b))"
  have "back_substitute n (eliminate n (A, b)) = Inr ?xs"
    using ne by (rule back_substitute_values)
  moreover have "length ?xs = n"
    using back_values_equations [OF le, of "fst (eliminate n (A, b))" "snd (eliminate n (A, b))"]
    by simp
  moreover have "\<forall>i<n. dot n (mat A i) (vec ?xs) = vec b i"
    using assms(1,2,3,4) le by (rule symmetric_system_values)
  ultimately show ?thesis by blast
qed

text \<open>
  Symmetry is needed. The system with rows \<open>(0 1)\<close> and \<open>(0 0)\<close> and right-hand side
  \<open>(1 0)\<close> has the solution \<open>(0 1)\<close>; the loops return \<open>(1 0)\<close>, which violates the first
  equation.
\<close>

lemma asymmetric_system_not_solved:
  "back_substitute 2 (eliminate 2 ([[False, True], [False, False]], [True, False])) =
     Inr [True, False]"
proof -
  have "back_values 2 (eliminate 2 ([[False, True], [False, False]], [True, False])) =
          [True, False]"
    by (simp add: back_values_def back_rows_def eliminate_def eliminate_col_def
        find_pivot.simps eliminate_below_def swap_rows_def xor_row_def upt_rec numeral_2_eq_2)
  then show ?thesis by (simp add: back_substitute_values)
qed

lemma toggle_gvec:
  assumes s: "sized y x s" and rc: "r < y" "c < x"
  shows "\<exists>s'. toggle s r c = Inr s' \<and> sized y x s' \<and>
           (\<forall>j<y * x. gvec x s' j = gvec x s j + fmat x j (r * x + c))"
proof -
  from s have wf: "wf_box s" and sz: "ySize s = y" "xSize s = x" by (simp_all add: sized_def)
  have rc': "r < ySize s" "c < xSize s" using rc sz by simp_all
  from toggle_cells [OF wf rc'] obtain s' where
    t0: "toggle s r c = Inr s'" "wf_box s'" "ySize s' = ySize s" "xSize s' = xSize s"
      "\<forall>i<ySize s. \<forall>j<xSize s. box s' ! i ! j = (box s ! i ! j \<noteq> (i = r \<or> j = c))" by blast
  have t: "toggle s r c = Inr s'" "wf_box s'" "ySize s' = y" "xSize s' = x"
      "\<forall>i<y. \<forall>j<x. box s' ! i ! j = (box s ! i ! j \<noteq> (i = r \<or> j = c))"
    using t0 sz by simp_all
  have "gvec x s' j = gvec x s j + fmat x j (r * x + c)" if j: "j < y * x" for j
  proof -
    have x: "0 < x" using rc(2) by simp
    have "j div x < y" using j by (rule div_less_of_less_mult)
    moreover have "j mod x < x" using x by simp
    ultimately have "box s' ! (j div x) ! (j mod x) =
        (box s ! (j div x) ! (j mod x) \<noteq> (j div x = r \<or> j mod x = c))"
      using t(5) by simp
    moreover have "footprint x j (r * x + c) = (j div x = r \<or> j mod x = c)"
      using rc(2) by (simp add: footprint_def)
    ultimately show ?thesis by (simp only: gvec_def fmat_def of_bool_xor)
  qed
  with t(1,2,3,4) show ?thesis by (auto simp: sized_def)
qed

lemma toggle_consistent:
  assumes s: "consistent y x s" and rc: "r < y" "c < x"
  shows "\<exists>s'. toggle s r c = Inr s' \<and> consistent y x s'"
proof -
  let ?n = "y * x"
  from s obtain Z where sz: "sized y x s" and Z: "\<forall>j<?n. gvec x s j = dot ?n (fmat x j) Z"
    by (auto simp: consistent_def)
  from toggle_gvec [OF sz rc] obtain s' where
    t: "toggle s r c = Inr s'" "sized y x s'"
      "\<forall>j<?n. gvec x s' j = gvec x s j + fmat x j (r * x + c)" by blast
  have tn: "r * x + c < ?n" using rc by (rule lin_index_less)
  have "\<forall>j<?n. gvec x s' j = dot ?n (fmat x j) (\<lambda>i. Z i + unitv (r * x + c) i)"
    using t(3) Z tn by (simp add: dot_add_right dot_unitv)
  with t(1,2) show ?thesis unfolding consistent_def by blast
qed

lemma blank_consistent: "consistent y x (blank y x)"
proof -
  have "sized y x (blank y x)" by (simp add: sized_def wf_box_def dims_def blank_def)
  moreover have "\<forall>j<y * x. gvec x (blank y x) j = dot (y * x) (fmat x j) (\<lambda>i. 0)"
  proof (intro allI impI)
    fix j assume j: "j < y * x"
    then have "0 < x" by (cases x) simp_all
    then have "j div x < y" "j mod x < x" using j by (simp_all add: div_less_of_less_mult)
    then show "gvec x (blank y x) j = dot (y * x) (fmat x j) (\<lambda>i. 0)"
      by (simp add: gvec_def blank_def dot_def)
  qed
  ultimately show ?thesis unfolding consistent_def by blast
qed

lemma toggle_all_consistent:
  assumes "consistent y x s" "\<forall>p\<in>set ps. fst p < y \<and> snd p < x"
  shows "\<exists>s'. toggle_all ps s = Inr s' \<and> consistent y x s'"
  using assms
proof (induction ps arbitrary: s)
  case Nil
  then show ?case by (simp add: toggle_all_def)
next
  case (Cons p ps)
  from Cons.prems(2) have p: "fst p < y" "snd p < x" by simp_all
  from toggle_consistent [OF Cons.prems(1) p] obtain s1 where
    s1: "toggle s (fst p) (snd p) = Inr s1" "consistent y x s1" by blast
  from Cons.IH [OF s1(2)] Cons.prems(2) obtain s' where
    "toggle_all ps s1 = Inr s'" "consistent y x s'" by auto
  with s1(1) show ?case by (simp add: toggle_all_def)
qed

lemma shuffle_consistent:
  assumes "0 < y" "0 < x"
  shows "\<exists>s. shuffle rng (blank y x) = Inr s \<and> consistent y x s"
  unfolding shuffle_def
proof (rule for_each_upt_rule [where I = "\<lambda>k. consistent y x"])
  show "consistent y x (blank y x)" by (rule blank_consistent)
next
  fix k t assume t: "consistent y x t"
  then have sz: "ySize t = y" "xSize t = x" by (simp_all add: consistent_def sized_def)
  have "rng (2 * k + 1) mod y < y" "rng (2 * k + 2) mod x < x" using assms by simp_all
  from toggle_consistent [OF t this] assms sz
  show "\<exists>t'. (if ySize t = 0 \<or> xSize t = 0 then Inl DivisionByZero
               else toggle t (rng (2 * k + 1) mod ySize t) (rng (2 * k + 2) mod xSize t)) = Inr t' \<and>
             consistent y x t'"
    by simp
qed simp

lemma apply_toggles_gvec:
  assumes s: "sized y x bx" and len: "length xs = y * x"
  shows "\<exists>bx'. apply_toggles x (y * x) xs bx = Inr bx' \<and> sized y x bx' \<and>
           (\<forall>j<y * x. gvec x bx' j = gvec x bx j + (\<Sum>i<y * x. vec xs i * fmat x j i))"
  unfolding apply_toggles_def
proof (rule for_each_upt_rule [where I = "\<lambda>m t. sized y x t \<and>
           (\<forall>j<y * x. gvec x t j = gvec x bx j + (\<Sum>i<m. vec xs i * fmat x j i))"])
  show "sized y x bx \<and> (\<forall>j<y * x. gvec x bx j = gvec x bx j + (\<Sum>i<0. vec xs i * fmat x j i))"
    using s by simp
next
  fix k t
  assume k: "k < y * x"
    and t: "sized y x t \<and> (\<forall>j<y * x. gvec x t j = gvec x bx j + (\<Sum>i<k. vec xs i * fmat x j i))"
  show "\<exists>t'. (if xs ! k then if x = 0 then Inl DivisionByZero else toggle t (k div x) (k mod x)
               else Inr t) = Inr t' \<and>
          (sized y x t' \<and>
           (\<forall>j<y * x. gvec x t' j = gvec x bx j + (\<Sum>i<Suc k. vec xs i * fmat x j i)))"
  proof (cases "xs ! k")
    case False
    then show ?thesis using t by (simp add: vec_def)
  next
    case True
    from k have x: "0 < x" by (cases x) simp_all
    have r: "k div x < y" "k mod x < x" using k x by (simp_all add: div_less_of_less_mult)
    from toggle_gvec [OF conjunct1 [OF t] r] obtain t' where
      t': "toggle t (k div x) (k mod x) = Inr t'" "sized y x t'"
        "\<forall>j<y * x. gvec x t' j = gvec x t j + fmat x j (k div x * x + k mod x)" by blast
    have "\<forall>j<y * x. gvec x t' j = gvec x bx j + (\<Sum>i<Suc k. vec xs i * fmat x j i)"
      using t t'(3) True by (simp add: vec_def add.assoc)
    with t'(1,2) True x show ?thesis by simp
  qed
qed simp

lemma isLocked_all_false:
  assumes "\<forall>i<ySize s. \<forall>j<xSize s. \<not> box s ! i ! j"
  shows "\<not> isLocked s"
  using assms by (auto simp: isLocked_def list_ex_iff)

lemma solve_box_unlocks:
  assumes c: "consistent y x bx" and n: "y * x < 2147483648"
  shows "\<exists>bx'. solve_box y x bx = Inr bx' \<and> sized y x bx' \<and>
           (\<forall>i<y. \<forall>j<x. \<not> box bx' ! i ! j) \<and> \<not> isLocked bx'"
proof -
  let ?n = "y * x"
  from c obtain Z where sz: "sized y x bx" and Z: "\<forall>j<?n. gvec x bx j = dot ?n (fmat x j) Z"
    by (auto simp: consistent_def)
  from sz have wf: "wf_box bx" "ySize bx = y" "xSize bx = x" by (simp_all add: sized_def)
  have n32: "?n < 4294967296" using n by simp
  then have un: "u32 ?n = ?n" by (simp add: u32_def)
  from build_system_result [OF wf n32] obtain A b where
    bs: "build_system bx y x (u32 ?n) = Inr (A, b)" and bl: "built bx x ?n ?n (A, b)"
    by (metis surj_pair)
  from bl have dA: "dims A ?n ?n" and lb: "length b = ?n"
    and cA: "\<forall>i<?n. \<forall>j<?n. A ! i ! j = footprint x i j"
    and cb: "\<forall>i<?n. b ! i = box bx ! (i div x) ! (i mod x)"
    by (simp_all add: built_def)
  have mA: "mat A i k = fmat x i k" if "i < ?n" "k < ?n" for i k
    using cA that by (simp add: mat_def fmat_def)
  have vb: "vec b j = gvec x bx j" if "j < ?n" for j
    using cb that by (simp add: vec_def gvec_def)
  have symA: "\<forall>i<?n. \<forall>j<?n. A ! i ! j = A ! j ! i"
    using cA by (auto simp: footprint_def)
  have rows: "dot ?n (mat A i) v = dot ?n (fmat x i) v" if "i < ?n" for i v
    by (rule dot_cong) (simp_all add: mA that)
  have "\<forall>i<?n. dot ?n (mat A i) Z = vec b i" using Z rows vb by simp
  from symmetric_system_solved [OF dA lb symA this n] obtain xs where
    bk: "back_substitute ?n (eliminate ?n (A, b)) = Inr xs" and lx: "length xs = ?n"
    and sol: "\<forall>i<?n. dot ?n (mat A i) (vec xs) = vec b i" by blast
  from apply_toggles_gvec [OF sz lx] obtain bx' where
    r: "apply_toggles x ?n xs bx = Inr bx'" "sized y x bx'"
      "\<forall>j<?n. gvec x bx' j = gvec x bx j + (\<Sum>i<?n. vec xs i * fmat x j i)" by blast
  have run: "solve_box y x bx = Inr bx'"
    using bs bk r(1) by (simp add: solve_box_def un)
  have zero: "gvec x bx' j = 0" if j: "j < ?n" for j
  proof -
    have "(\<Sum>i<?n. vec xs i * fmat x j i) = dot ?n (fmat x j) (vec xs)"
      by (simp add: dot_def mult.commute)
    also have "\<dots> = vec b j" using sol rows j by simp
    finally show ?thesis using r(3) vb j by simp
  qed
  have cells: "\<not> box bx' ! i ! j" if ij: "i < y" "j < x" for i j
  proof -
    have "i * x + j < ?n" using ij by (rule lin_index_less)
    from zero [OF this] ij(2) show ?thesis by (simp add: gvec_def)
  qed
  have "\<not> isLocked bx'"
    using r(2) cells by (intro isLocked_all_false) (simp add: sized_def)
  with run r(2) cells show ?thesis by blast
qed

lemma SecureBox_new_blank: "SecureBox_new y x rng = shuffle rng (blank y x)"
  by (simp add: SecureBox_new_def blank_def)

lemma shuffle_no_rounds: "rng 0 mod 1000 = 0 \<Longrightarrow> shuffle rng s = Inr s"
  by (simp add: shuffle_def)

lemma build_system_wrapped:
  assumes "0 < y" "0 < x"
  shows "build_system bx y x 0 = Inl IndexOutOfRange"
proof -
  have cell: "build_cell bx y x 0 0 ([], []) = Inl IndexOutOfRange"
    by (simp add: build_cell_def u32_def)
  have "for_each [0..<x] (\<lambda>col. build_cell bx y x 0 col) ([], []) = Inl IndexOutOfRange"
    using assms(2) cell by (simp add: upt_conv_Cons)
  then have "for_each [0..<y] (\<lambda>row. for_each [0..<x] (\<lambda>col. build_cell bx y x row col)) ([], [])
               = Inl IndexOutOfRange"
    using assms(1) by (simp add: upt_conv_Cons)
  then show ?thesis by (simp add: build_system_def)
qed

lemma solve_box_wrapped:
  assumes "0 < y" "0 < x" "u32 (y * x) = 0"
  shows "solve_box y x bx = Inl IndexOutOfRange"
  using build_system_wrapped [OF assms(1,2)] assms(3) by (simp add: solve_box_def)

text \<open>
  Between \<open>2^31\<close> and \<open>2^32\<close> cells the \<open>int\<close> counter of back substitution starts
  negative, no toggle is computed, and the box is left as it was. With exactly \<open>2^31\<close> cells
  the counter starts at \<open>INT_MAX\<close> and the first \<open>row + 1\<close> overflows.
\<close>

lemma solve_box_int_overflow:
  assumes wf: "wf_box bx" "ySize bx = y" "xSize bx = x"
    and n: "y * x = 2147483648"
  shows "solve_box y x bx = Inl IntOverflow"
proof -
  have n32: "y * x < 4294967296" using n by simp
  have un: "u32 (y * x) = 2147483648" using n by (simp add: u32_def)
  from build_system_result [OF wf n32] obtain Ab where
    bs: "build_system bx y x 2147483648 = Inr Ab" unfolding un by blast
  show ?thesis unfolding solve_box_def un by (simp add: bs back_substitute_overflow Let_def)
qed

lemma back_rows_above_int_range: "2147483648 < n \<Longrightarrow> back_rows n = []"
  by (simp add: back_rows_def)

lemma solve_box_above_int_range:
  assumes wf: "wf_box bx" "ySize bx = y" "xSize bx = x"
    and n: "2147483648 < y * x" "y * x < 4294967296"
  shows "solve_box y x bx = Inr bx"
proof -
  define n where "n = y * x"
  have un: "u32 (y * x) = n" using n(2) by (simp add: u32_def n_def)
  from build_system_result [OF wf n(2)] obtain Ab where
    bs: "build_system bx y x n = Inr Ab" unfolding un by blast
  have br: "back_rows n = []" using n(1) unfolding n_def by (rule back_rows_above_int_range)
  have xs: "back_substitute n (eliminate n Ab) = Inr (replicate n False)"
    by (cases "eliminate n Ab") (simp add: back_substitute_def br)
  have ap: "apply_toggles x n (replicate n False) bx = Inr bx"
    unfolding apply_toggles_def by (rule for_each_skip) simp
  show ?thesis unfolding solve_box_def un by (simp add: bs xs ap Let_def)
qed

text \<open>
  Claim C1, within the range of the 32-bit arithmetic. For a grid of \<open>y \<ge> 1\<close> rows and
  \<open>x \<ge> 1\<close> columns with \<open>y * x < 2 ^ 31\<close>, and for every state reached from the all-false
  grid by a finite sequence of toggles at positions of the grid: the phases of \<open>openBox\<close>
  after the constructor return a box (no error value of the model arises: the construction
  and the replay stay within their vectors and no \<open>row + 1\<close> of back substitution
  overflows), the replay of the computed toggles leaves every cell false, and \<open>isLocked\<close>,
  which is what \<open>openBox\<close> returns, is false.
\<close>

theorem solver_unlocks_every_reachable_grid:
  assumes "1 \<le> y" "1 \<le> x" "y * x < 2147483648" "\<forall>p\<in>set ps. fst p < y \<and> snd p < x"
  shows "\<exists>bx bx'. toggle_all ps (blank y x) = Inr bx \<and> solve_box y x bx = Inr bx' \<and>
           (\<forall>i<y. \<forall>j<x. \<not> box bx' ! i ! j) \<and> \<not> isLocked bx'"
proof -
  from toggle_all_consistent [OF blank_consistent assms(4)] obtain bx where
    bx: "toggle_all ps (blank y x) = Inr bx" "consistent y x bx" by blast
  from solve_box_unlocks [OF bx(2) assms(3)] obtain bx' where
    "solve_box y x bx = Inr bx'" "\<forall>i<y. \<forall>j<x. \<not> box bx' ! i ! j" "\<not> isLocked bx'" by blast
  with bx(1) show ?thesis by blast
qed

theorem solver_unlocks_every_reachable_grid_witness:
  "\<exists>bx bx'. toggle_all [(0, 1), (1, 1)] (blank 2 3) = Inr bx \<and> solve_box 2 3 bx = Inr bx' \<and>
           (\<forall>i<2. \<forall>j<3. \<not> box bx' ! i ! j) \<and> \<not> isLocked bx'"
proof -
  have "(1::nat) \<le> 2" "(1::nat) \<le> 3" "(2::nat) * 3 < 2147483648"
    "\<forall>p\<in>set [(0, 1), (1, 1)]. fst p < (2::nat) \<and> snd p < (3::nat)" by simp_all
  then show ?thesis by (rule solver_unlocks_every_reachable_grid)
qed

text \<open>
  Claim C1 as stated, for every \<open>y, x \<ge> 1\<close>, fails: for \<open>y = x = 65536\<close> the product
  \<open>y * x\<close> wraps to 0, \<open>A\<close> and \<open>b\<close> are created empty, and the first iteration of the
  construction writes \<open>b[0]\<close>, beyond the end. The all-false grid (the empty sequence of
  toggles) is enough.
\<close>

theorem solver_fails_when_size_wraps:
  "toggle_all [] (blank 65536 65536) = Inr (blank 65536 65536) \<and>
   solve_box 65536 65536 (blank 65536 65536) = Inl IndexOutOfRange"
proof
  show "toggle_all [] (blank 65536 65536) = Inr (blank 65536 65536)"
    by (simp add: toggle_all_def)
  show "solve_box 65536 65536 (blank 65536 65536) = Inl IndexOutOfRange"
    by (rule solve_box_wrapped) (simp_all add: u32_def)
qed

text \<open>
  Claim C2, within the range of the 32-bit arithmetic. For \<open>y \<ge> 1\<close>, \<open>x \<ge> 1\<close> with
  \<open>y * x < 2 ^ 31\<close> and for every sequence of values of the random generator, that is for
  every scramble the constructor can perform, \<open>openBox(y, x)\<close> returns false.
\<close>

theorem openBox_unlocks_after_any_scramble:
  assumes "0 < unat y" "0 < unat x" "unat y * unat x < 2147483648"
  shows "openBox y x rng = Inr False"
proof -
  from shuffle_consistent [OF assms(1,2)] obtain bx where
    bx: "shuffle rng (blank (unat y) (unat x)) = Inr bx" "consistent (unat y) (unat x) bx" by blast
  from solve_box_unlocks [OF bx(2) assms(3)] obtain bx' where
    "solve_box (unat y) (unat x) bx = Inr bx'" "\<not> isLocked bx'" by blast
  with bx(1) show ?thesis by (simp add: openBox_def SecureBox_new_blank)
qed

theorem openBox_unlocks_after_any_scramble_witness:
  "openBox 2 3 Suc = Inr False"
proof -
  have "0 < unat (2 :: 32 word)" "0 < unat (3 :: 32 word)"
    "unat (2 :: 32 word) * unat (3 :: 32 word) < 2147483648" by simp_all
  then show ?thesis by (rule openBox_unlocks_after_any_scramble)
qed

text \<open>
  Claim C2 as stated, for every \<open>y, x \<ge> 1\<close>, fails: \<open>openBox(65536, 65536)\<close>, here with a
  generator that asks for no round of scrambling, ends in an access beyond the end of the
  empty vector \<open>b\<close> instead of returning false.
\<close>

theorem openBox_fails_when_size_wraps:
  "openBox 65536 65536 id = Inl IndexOutOfRange"
proof -
  have "SecureBox_new (unat (65536 :: 32 word)) (unat (65536 :: 32 word)) id =
        Inr (blank (unat (65536 :: 32 word)) (unat (65536 :: 32 word)))"
    by (simp only: SecureBox_new_blank) (rule shuffle_no_rounds, simp)
  moreover have "solve_box (unat (65536 :: 32 word)) (unat (65536 :: 32 word))
        (blank (unat (65536 :: 32 word)) (unat (65536 :: 32 word))) = Inl IndexOutOfRange"
    by (rule solve_box_wrapped) (simp_all add: u32_def)
  ultimately show ?thesis by (simp only: openBox_def sum.case)
qed

end
